theory Spec2Isabelle
  imports Complex_Main "HOL-Library.List_Lexorder" "HOL-Library.Char_ord"
    "HOL-Library.Product_Lexorder" "HOL-Library.Sublist" "HOL-Library.Multiset"
begin

section \<open>Python values and exceptions\<close>

text \<open>
  The exceptions that the modelled functions of \<^verbatim>\<open>rl_bot/player.py\<close> can raise.
  A raising call is a value \<open>Inl e\<close>; a returning call is \<open>Inr v\<close>.
\<close>

datatype py_error = KeyError | IndexError | ValueError | TypeError | ZeroDivisionError

definition bindE :: "py_error + 'a \<Rightarrow> ('a \<Rightarrow> py_error + 'b) \<Rightarrow> py_error + 'b" where
  "bindE m f = (case m of Inl e \<Rightarrow> Inl e | Inr v \<Rightarrow> f v)"

text \<open>A list comprehension whose element expression may raise: the first raise wins.\<close>

fun mapE :: "('a \<Rightarrow> py_error + 'b) \<Rightarrow> 'a list \<Rightarrow> py_error + 'b list" where
  "mapE f [] = Inr []"
| "mapE f (x # xs) = bindE (f x) (\<lambda>y. bindE (mapE f xs) (\<lambda>ys. Inr (y # ys)))"

text \<open>
  The values that \<^verbatim>\<open>eval5\<close> and \<^verbatim>\<open>eval7\<close> handle: \<^verbatim>\<open>None\<close>, integers, and
  tuples nested in tuples.
\<close>

datatype pyval = PNone | PInt int | PTup "pyval list"

text \<open>
  Python's \<^verbatim>\<open>a > b\<close>. Tuples compare lexicographically: the first position where the
  elements are not equal decides, by the elements' own comparison; with no such
  position the longer tuple is the greater. Equality (\<^verbatim>\<open>==\<close>) of these values is
  structural, so it is HOL equality. Comparing an integer with a tuple, or anything
  with \<^verbatim>\<open>None\<close>, raises \<^verbatim>\<open>TypeError\<close>.
\<close>

fun py_gt :: "pyval \<Rightarrow> pyval \<Rightarrow> py_error + bool"
  and tup_gt :: "pyval list \<Rightarrow> pyval list \<Rightarrow> py_error + bool" where
  "py_gt (PInt a) (PInt b) = Inr (a > b)"
| "py_gt (PTup xs) (PTup ys) = tup_gt xs ys"
| "py_gt _ _ = Inl TypeError"
| "tup_gt [] ys = Inr False"
| "tup_gt (x # xs) [] = Inr True"
| "tup_gt (x # xs) (y # ys) = (if x = y then tup_gt xs ys else py_gt x y)"

text \<open>
  \<^verbatim>\<open>sorted(xs, key=f, reverse=True)\<close>: CPython reverses the list, sorts it stably in
  ascending order and reverses the result, so equal keys keep their original order.
  \<^verbatim>\<open>sorted(xs)\<close> is the stable ascending sort \<^const>\<open>sort_key\<close>.
\<close>

definition py_sorted_rev :: "('a \<Rightarrow> 'k::linorder) \<Rightarrow> 'a list \<Rightarrow> 'a list" where
  "py_sorted_rev f xs = rev (sort_key f (rev xs))"

text \<open>\<^verbatim>\<open>max(...)\<close> of a generator: \<^verbatim>\<open>ValueError\<close> when it yields nothing.\<close>

definition py_max :: "int list \<Rightarrow> py_error + int" where
  "py_max xs = (case xs of [] \<Rightarrow> Inl ValueError | y # ys \<Rightarrow> Inr (fold max ys y))"

text \<open>\<^verbatim>\<open>xs[i]\<close> for a non-negative index: \<^verbatim>\<open>IndexError\<close> out of range.\<close>

definition py_index :: "'a list \<Rightarrow> nat \<Rightarrow> py_error + 'a" where
  "py_index xs i = (if i < length xs then Inr (xs ! i) else Inl IndexError)"

text \<open>
  \<^verbatim>\<open>Counter(xs).items()\<close>: a dictionary keeps its keys in the order of first insertion.
\<close>

fun counter_add :: "'a \<Rightarrow> ('a \<times> int) list \<Rightarrow> ('a \<times> int) list" where
  "counter_add x [] = [(x, 1)]"
| "counter_add x ((k, c) # m) = (if k = x then (k, c + 1) # m else (k, c) # counter_add x m)"

definition Counter :: "'a list \<Rightarrow> ('a \<times> int) list" where
  "Counter xs = foldl (\<lambda>m x. counter_add x m) [] xs"

text \<open>
  \<^verbatim>\<open>itertools.combinations(xs, k)\<close>: the \<open>k\<close>-element subsequences of \<open>xs\<close>, in
  lexicographic order of their positions.
\<close>

fun combinations :: "'a list \<Rightarrow> nat \<Rightarrow> 'a list list" where
  "combinations xs 0 = [[]]"
| "combinations [] (Suc k) = []"
| "combinations (x # xs) (Suc k) = map ((#) x) (combinations xs k) @ combinations xs (Suc k)"

section \<open>Cards\<close>

text \<open>A card is a two-character token: rank character, then suit character.\<close>

type_synonym card = string

definition RANK_TO_INT :: "char \<Rightarrow> int option" where
  "RANK_TO_INT = map_of
     [(CHR ''2'', 2), (CHR ''3'', 3), (CHR ''4'', 4), (CHR ''5'', 5), (CHR ''6'', 6),
      (CHR ''7'', 7), (CHR ''8'', 8), (CHR ''9'', 9), (CHR ''T'', 10), (CHR ''J'', 11),
      (CHR ''Q'', 12), (CHR ''K'', 13), (CHR ''A'', 14)]"

text \<open>\<^verbatim>\<open>RANK_TO_INT[c[0]]\<close>: the empty string has no first character, an unknown
  character is a missing key.\<close>

definition rank_of :: "card \<Rightarrow> py_error + int" where
  "rank_of c = bindE (py_index c 0) (\<lambda>ch.
     case RANK_TO_INT ch of None \<Rightarrow> Inl KeyError | Some r \<Rightarrow> Inr r)"

text \<open>\<^verbatim>\<open>c[1]\<close>\<close>

definition suit_of :: "card \<Rightarrow> py_error + char" where
  "suit_of c = py_index c 1"

text \<open>\<^verbatim>\<open>[r + s for r in "23456789TJQKA" for s in "cdhs"]\<close>\<close>

definition full_deck :: "card list" where
  "full_deck = concat (map (\<lambda>r. map (\<lambda>s. [r, s]) ''cdhs'') ''23456789TJQKA'')"

section \<open>Hand evaluation\<close>

text \<open>
  The body of \<^verbatim>\<open>eval5\<close> from the \<^verbatim>\<open>Counter\<close> on, given \<open>ranks\<close> (already sorted
  descending) and \<open>suits\<close>. \<^verbatim>\<open>counts_sorted[0]\<close> raises \<^verbatim>\<open>IndexError\<close> when there is
  no card at all.
\<close>

definition eval5_classify :: "int list \<Rightarrow> char list \<Rightarrow> py_error + pyval" where
  "eval5_classify ranks suits =
    (let rank_counts = Counter ranks;
         counts_sorted = py_sorted_rev (\<lambda>x. (snd x, fst x)) rank_counts;
         is_flush = (card (set suits) = 1);
         uniq = py_sorted_rev (\<lambda>r. r) (remdups ranks);
         straight =
           (if length uniq = 5 then
              (if uniq ! 0 - uniq ! 4 = 4 then (True, uniq ! 0)
               else if uniq = [14, 5, 4, 3, 2] then (True, 5)
               else (False, 0))
            else (False, 0));
         is_straight = fst straight;
         straight_high = snd straight
     in
       if is_flush \<and> is_straight then Inr (PTup [PInt 8, PInt straight_high])
       else
         bindE (py_index counts_sorted 0) (\<lambda>c1.
           let c1_rank = fst c1; c1_cnt = snd c1;
               c2 = (if length counts_sorted > 1 then counts_sorted ! 1 else (0, 0));
               c2_rank = fst c2; c2_cnt = snd c2
           in
             if c1_cnt = 4 then
               bindE (py_max (filter (\<lambda>r. r \<noteq> c1_rank) ranks)) (\<lambda>kicker.
                 Inr (PTup [PInt 7, PInt c1_rank, PInt kicker]))
             else if c1_cnt = 3 \<and> c2_cnt = 2 then
               Inr (PTup [PInt 6, PInt c1_rank, PInt c2_rank])
             else if is_flush then
               Inr (PTup [PInt 5, PTup (map PInt (py_sorted_rev (\<lambda>r. r) ranks))])
             else if is_straight then
               Inr (PTup [PInt 4, PInt straight_high])
             else if c1_cnt = 3 then
               (let kickers = py_sorted_rev (\<lambda>r. r) (filter (\<lambda>r. r \<noteq> c1_rank) ranks)
                in Inr (PTup [PInt 3, PInt c1_rank, PTup (map PInt kickers)]))
             else if c1_cnt = 2 \<and> c2_cnt = 2 then
               (let high_pair = max c1_rank c2_rank;
                    low_pair = min c1_rank c2_rank
                in bindE (py_max (filter (\<lambda>r. r \<noteq> high_pair \<and> r \<noteq> low_pair) ranks))
                     (\<lambda>kicker.
                        Inr (PTup [PInt 2, PInt high_pair, PInt low_pair, PInt kicker])))
             else if c1_cnt = 2 then
               (let pair_rank = c1_rank;
                    kickers = py_sorted_rev (\<lambda>r. r) (filter (\<lambda>r. r \<noteq> pair_rank) ranks)
                in Inr (PTup [PInt 1, PInt pair_rank, PTup (map PInt kickers)]))
             else
               Inr (PTup [PInt 0, PTup (map PInt (py_sorted_rev (\<lambda>r. r) ranks))])))"

text \<open>
  \<^verbatim>\<open>eval5\<close>: the two comprehensions run first, ranks before suits, and either may
  raise on a malformed token.
\<close>

definition eval5 :: "card list \<Rightarrow> py_error + pyval" where
  "eval5 cards5 =
     bindE (mapE rank_of cards5) (\<lambda>rs.
     bindE (mapE suit_of cards5) (\<lambda>suits.
       eval5_classify (py_sorted_rev (\<lambda>r. r) rs) suits))"

text \<open>
  The loop of \<^verbatim>\<open>eval7\<close> over the index tuples. Every index comes from
  \<^verbatim>\<open>range(n)\<close>, so \<^verbatim>\<open>cards[i]\<close> is in range.
\<close>

fun eval7_loop :: "card list \<Rightarrow> nat list list \<Rightarrow> pyval \<Rightarrow> py_error + pyval" where
  "eval7_loop cards [] best = Inr best"
| "eval7_loop cards (idxs # rest) best =
     bindE (eval5 (map (\<lambda>i. cards ! i) idxs)) (\<lambda>score.
     bindE (if best = PNone then Inr True else py_gt score best) (\<lambda>b.
       eval7_loop cards rest (if b then score else best)))"

definition eval7 :: "card list \<Rightarrow> py_error + pyval" where
  "eval7 cards =
     (let n = length cards in
      if n \<le> 5 then eval5 cards
      else eval7_loop cards (combinations [0..<n] 5) PNone)"

section \<open>Equity simulation\<close>

text \<open>
  The nested function \<^verbatim>\<open>best_two_from_three\<close>. Its loop runs over
  \<^verbatim>\<open>range(3)\<close>; \<^verbatim>\<open>cards3[j]\<close> raises \<^verbatim>\<open>IndexError\<close> on a shorter list. It returns
  \<^verbatim>\<open>best_keep\<close>, which starts as \<^verbatim>\<open>None\<close>.
\<close>

fun best_two_loop ::
  "card list \<Rightarrow> card list \<Rightarrow> nat list \<Rightarrow> pyval \<Rightarrow> card list option
     \<Rightarrow> py_error + card list option" where
  "best_two_loop cards3 current_board [] best_score best_keep = Inr best_keep"
| "best_two_loop cards3 current_board (drop_i # rest) best_score best_keep =
     bindE (mapE (py_index cards3) (filter (\<lambda>j. j \<noteq> drop_i) [0..<3])) (\<lambda>keep.
     bindE (eval7 (keep @ current_board)) (\<lambda>score.
     bindE (if best_score = PNone then Inr True else py_gt score best_score) (\<lambda>b.
       best_two_loop cards3 current_board rest
         (if b then score else best_score) (if b then Some keep else best_keep))))"

definition best_two_from_three :: "card list \<Rightarrow> card list \<Rightarrow> py_error + card list option" where
  "best_two_from_three cards3 current_board =
     best_two_loop cards3 current_board [0..<3] PNone None"

text \<open>\<^verbatim>\<open>my2 + sim_board\<close>: concatenating \<^verbatim>\<open>None\<close> with a list is a \<^verbatim>\<open>TypeError\<close>.\<close>

definition py_concat :: "card list option \<Rightarrow> card list \<Rightarrow> py_error + card list" where
  "py_concat xs ys = (case xs of None \<Rightarrow> Inl TypeError | Some zs \<Rightarrow> Inr (zs @ ys))"

text \<open>The run-out loop \<^verbatim>\<open>while len(sim_board) < 6: sim_board.append(deck[d]); d += 1\<close>.\<close>

function runout :: "card list \<Rightarrow> card list \<Rightarrow> nat \<Rightarrow> py_error + (card list \<times> nat)" where
  "runout deck sim_board d =
     (if length sim_board < 6 then
        (if d < length deck then runout deck (sim_board @ [deck ! d]) (d + 1)
         else Inl IndexError)
      else Inr (sim_board, d))"
  by pat_completeness auto
termination
  by (relation "measure (\<lambda>(deck, sim_board, d). 6 - length sim_board)") auto

text \<open>
  The random generator \<^verbatim>\<open>self.rng\<close> is library code: \<open>shuffle\<close> is a parameter that
  maps a generator state and a list to the shuffled list and the next state.
  The estimate is a Python float; the accumulated score is a multiple of one half
  and is modelled as an exact rational, as is the final quotient.

  One iteration of the simulation loop, on the state (deck, generator, wins): the deck
  stays in its shuffled order for the next iteration.
\<close>

definition sim_iteration ::
  "('g \<Rightarrow> card list \<Rightarrow> card list \<times> 'g) \<Rightarrow> card list \<Rightarrow> card list
     \<Rightarrow> card list \<times> 'g \<times> rat \<Rightarrow> py_error + (card list \<times> 'g \<times> rat)" where
  "sim_iteration shuffle my_cards board s =
     (let deck = fst (shuffle (fst (snd s)) (fst s));
          g = snd (shuffle (fst (snd s)) (fst s));
          wins = snd (snd s)
      in
        bindE (mapE (py_index deck) [0, 1, 2]) (\<lambda>opp3.
        let sim_board = board in
        bindE (if length my_cards = 3 then best_two_from_three my_cards sim_board
               else Inr (Some my_cards)) (\<lambda>my2.
        bindE (best_two_from_three opp3 sim_board) (\<lambda>opp2.
        bindE (runout deck sim_board 3) (\<lambda>ro.
        bindE (bindE (py_concat my2 (fst ro)) eval7) (\<lambda>s1.
        bindE (bindE (py_concat opp2 (fst ro)) eval7) (\<lambda>s2.
        bindE (py_gt s1 s2) (\<lambda>gt.
          Inr (deck, g,
               if gt then wins + 1 else if s1 = s2 then wins + 1 / 2 else wins)))))))))"

fun sim_loop ::
  "('g \<Rightarrow> card list \<Rightarrow> card list \<times> 'g) \<Rightarrow> card list \<Rightarrow> card list \<Rightarrow> nat
     \<Rightarrow> card list \<times> 'g \<times> rat \<Rightarrow> py_error + (card list \<times> 'g \<times> rat)" where
  "sim_loop shuffle my_cards board 0 s = Inr s"
| "sim_loop shuffle my_cards board (Suc k) s =
     bindE (sim_iteration shuffle my_cards board s) (sim_loop shuffle my_cards board k)"

text \<open>
  \<^verbatim>\<open>calculate_equity_python\<close>: returns the estimate and the generator state it leaves.
  \<^verbatim>\<open>range(iterations)\<close> is empty for a count below one; the final division raises on
  a zero count.
\<close>

definition calculate_equity_python ::
  "('g \<Rightarrow> card list \<Rightarrow> card list \<times> 'g) \<Rightarrow> card list \<Rightarrow> card list \<Rightarrow> int \<Rightarrow> 'g
     \<Rightarrow> py_error + (rat \<times> 'g)" where
  "calculate_equity_python shuffle my_cards board iterations g =
     (let used = set (my_cards @ board);
          deck = filter (\<lambda>c. c \<notin> used) full_deck
      in bindE (sim_loop shuffle my_cards board (nat iterations) (deck, g, 0)) (\<lambda>s.
           if iterations = 0 then Inl ZeroDivisionError
           else Inr (snd (snd s) / of_int iterations, fst (snd s))))"

section \<open>Equity cache and discard selection\<close>

text \<open>The cache key \<^verbatim>\<open>(tuple(sorted(my_cards)), tuple(board), street, it_bucket)\<close>.\<close>

type_synonym cache_key = "card list \<times> card list \<times> int \<times> int"

text \<open>The mutable fields of a \<^verbatim>\<open>Player\<close>.\<close>

record 'g player =
  lockdown_mode :: bool
  rng :: 'g
  eq_cache :: "cache_key \<Rightarrow> rat option"

definition it_bucket :: "int \<Rightarrow> int" where
  "it_bucket iterations =
     (if iterations \<le> 45 then 40 else if iterations \<le> 70 then 60
      else if iterations \<le> 100 then 90 else 120)"

definition cache_key_of :: "card list \<Rightarrow> card list \<Rightarrow> int \<Rightarrow> int \<Rightarrow> cache_key" where
  "cache_key_of my_cards board street iterations =
     (sort my_cards, board, street, it_bucket iterations)"

text \<open>
  \<^verbatim>\<open>calculate_equity\<close>: returns the estimate and the player with its cache and
  generator as the call leaves them.
\<close>

definition calculate_equity ::
  "('g \<Rightarrow> card list \<Rightarrow> card list \<times> 'g) \<Rightarrow> card list \<Rightarrow> card list \<Rightarrow> int \<Rightarrow> int
     \<Rightarrow> 'g player \<Rightarrow> py_error + (rat \<times> 'g player)" where
  "calculate_equity shuffle my_cards board street iterations self =
     (let key = cache_key_of my_cards board street iterations in
      case eq_cache self key of
        Some cached \<Rightarrow> Inr (cached, self)
      | None \<Rightarrow>
          bindE (calculate_equity_python shuffle my_cards board (it_bucket iterations)
                   (rng self)) (\<lambda>r.
            Inr (fst r, self\<lparr>rng := snd r, eq_cache := (eq_cache self)(key \<mapsto> fst r)\<rparr>)))"

text \<open>
  The loop of \<^verbatim>\<open>get_best_discard\<close> over \<^verbatim>\<open>range(3)\<close>, on
  (\<^verbatim>\<open>best_idx\<close>, \<^verbatim>\<open>best_eq\<close>, player). The function returns
  \<^verbatim>\<open>DiscardAction(best_idx)\<close>; the model returns the index.
\<close>

fun discard_loop ::
  "('g \<Rightarrow> card list \<Rightarrow> card list \<times> 'g) \<Rightarrow> card list \<Rightarrow> card list \<Rightarrow> int \<Rightarrow> nat list
     \<Rightarrow> nat \<Rightarrow> rat \<Rightarrow> 'g player \<Rightarrow> py_error + (nat \<times> 'g player)" where
  "discard_loop shuffle my_cards board iters [] best_idx best_eq self = Inr (best_idx, self)"
| "discard_loop shuffle my_cards board iters (i # rest) best_idx best_eq self =
     bindE (mapE (py_index my_cards) (filter (\<lambda>j. j \<noteq> i) [0..<3])) (\<lambda>kept.
     bindE (py_index my_cards i) (\<lambda>discarded.
     bindE (calculate_equity shuffle kept (board @ [discarded]) 1 iters self) (\<lambda>r.
       if fst r > best_eq
       then discard_loop shuffle my_cards board iters rest i (fst r) (snd r)
       else discard_loop shuffle my_cards board iters rest best_idx best_eq (snd r))))"

definition get_best_discard ::
  "('g \<Rightarrow> card list \<Rightarrow> card list \<times> 'g) \<Rightarrow> card list \<Rightarrow> card list \<Rightarrow> 'g player
     \<Rightarrow> py_error + (nat \<times> 'g player)" where
  "get_best_discard shuffle my_cards board self =
     (let iters = (if length board \<ge> 2 then 60 else 50) in
      discard_loop shuffle my_cards board iters [0..<3] 0 (- 1) self)"

text \<open>
  A sequence of equity queries (own cards, board, street, iterations), each run on the
  player that the one before it leaves. The first raise ends the sequence.
\<close>

fun run_queries ::
  "('g \<Rightarrow> card list \<Rightarrow> card list \<times> 'g) \<Rightarrow> (card list \<times> card list \<times> int \<times> int) list
     \<Rightarrow> 'g player \<Rightarrow> py_error + 'g player" where
  "run_queries shuffle [] self = Inr self"
| "run_queries shuffle (q # qs) self =
     bindE (calculate_equity shuffle (fst q) (fst (snd q)) (fst (snd (snd q)))
              (snd (snd (snd q))) self)
       (\<lambda>r. run_queries shuffle qs (snd r))"

section \<open>The ranking law of the specification\<close>

text \<open>
  The specification's description of the 5-card ranking, written from its words and
  independently of \<^const>\<open>eval5\<close>: multiplicities of ranks, flush, straight (with the
  ace-low wheel), and for each category its tie-break payload.
\<close>

definition card_rank :: "card \<Rightarrow> int" where
  "card_rank c = the (RANK_TO_INT (hd c))"

definition card_suit :: "card \<Rightarrow> char" where
  "card_suit c = c ! 1"

text \<open>The ranks that occur exactly \<open>k\<close> times, highest first.\<close>

definition ranks_with_count :: "nat \<Rightarrow> int list \<Rightarrow> int list" where
  "ranks_with_count k rs = rev (sort (remdups (filter (\<lambda>r. count_list rs r = k) rs)))"

definition spec_is_flush :: "char list \<Rightarrow> bool" where
  "spec_is_flush ss = list_all (\<lambda>s. s = hd ss) ss"

text \<open>Five consecutive ranks give their highest rank; the wheel A-2-3-4-5 gives 5.\<close>

definition spec_straight_high :: "int list \<Rightarrow> int option" where
  "spec_straight_high rs =
     (let lo = hd (sort rs) in
      if sort rs = [lo, lo + 1, lo + 2, lo + 3, lo + 4] then Some (lo + 4)
      else if sort rs = [2, 3, 4, 5, 14] then Some 5
      else None)"

text \<open>The law on the ranks and the suits of a hand.\<close>

definition spec_rank :: "int list \<Rightarrow> char list \<Rightarrow> pyval" where
  "spec_rank rs ss =
     (let desc = rev (sort rs);
          flush = spec_is_flush ss;
          straight = spec_straight_high rs;
          quads = ranks_with_count 4 rs;
          trips = ranks_with_count 3 rs;
          pairs = ranks_with_count 2 rs;
          singles = ranks_with_count 1 rs
      in
        if flush \<and> straight \<noteq> None then PTup [PInt 8, PInt (the straight)]
        else if quads \<noteq> [] then PTup [PInt 7, PInt (hd quads), PInt (hd singles)]
        else if trips \<noteq> [] \<and> pairs \<noteq> [] then PTup [PInt 6, PInt (hd trips), PInt (hd pairs)]
        else if flush then PTup [PInt 5, PTup (map PInt desc)]
        else if straight \<noteq> None then PTup [PInt 4, PInt (the straight)]
        else if trips \<noteq> [] then PTup [PInt 3, PInt (hd trips), PTup (map PInt singles)]
        else if length pairs = 2 then
          PTup [PInt 2, PInt (pairs ! 0), PInt (pairs ! 1), PInt (hd singles)]
        else if length pairs = 1 then PTup [PInt 1, PInt (hd pairs), PTup (map PInt singles)]
        else PTup [PInt 0, PTup (map PInt desc)])"

definition spec_eval5 :: "card list \<Rightarrow> pyval" where
  "spec_eval5 h = spec_rank (map card_rank h) (map card_suit h)"

text \<open>A well-formed hand of five cards: five tokens of the deck.\<close>

definition hand5 :: "card list \<Rightarrow> bool" where
  "hand5 h = (length h = 5 \<and> list_all (\<lambda>c. c \<in> set full_deck) h)"

text \<open>Mixed suits: two cards of the hand differ in suit.\<close>

definition mixed_suits :: "card list \<Rightarrow> bool" where
  "mixed_suits h = (\<exists>c \<in> set h. \<exists>c' \<in> set h. card_suit c \<noteq> card_suit c')"

text \<open>A list of tokens of the deck, of any length and with repetitions allowed.\<close>

definition deck_cards :: "card list \<Rightarrow> bool" where
  "deck_cards cs = list_all (\<lambda>c. c \<in> set full_deck) cs"

text \<open>
  What the simulation relies on from the library shuffle: the shuffled list is a
  permutation of the list it was given.
\<close>

definition permuting :: "('g \<Rightarrow> card list \<Rightarrow> card list \<times> 'g) \<Rightarrow> bool" where
  "permuting shuffle = (\<forall>g xs. mset (fst (shuffle g xs)) = mset xs)"

section \<open>The order on hand ranks\<close>

text \<open>
  The shapes of tuple that \<^const>\<open>eval5\<close> returns, by category, and the flattening of
  such a tuple into the list of its integers. On these shapes Python's comparison is
  the lexicographic order of the flattened lists.
\<close>

fun flat :: "pyval \<Rightarrow> int list" where
  "flat PNone = []"
| "flat (PInt i) = [i]"
| "flat (PTup xs) = concat (map flat xs)"

definition handrank :: "pyval \<Rightarrow> bool" where
  "handrank v \<longleftrightarrow>
     (\<exists>c x. c \<in> {8, 4} \<and> v = PTup [PInt c, PInt x])
   \<or> (\<exists>c x y. c \<in> {7, 6} \<and> v = PTup [PInt c, PInt x, PInt y])
   \<or> (\<exists>c xs. c \<in> {5, 0} \<and> v = PTup [PInt c, PTup (map PInt xs)])
   \<or> (\<exists>c x xs. c \<in> {3, 1} \<and> v = PTup [PInt c, PInt x, PTup (map PInt xs)])
   \<or> (\<exists>x y z. v = PTup [PInt 2, PInt x, PInt y, PInt z])"

section \<open>Properties of the 5-card classifier\<close>

lemma full_deck_iff:
  "c \<in> set full_deck \<longleftrightarrow> (\<exists>r \<in> set ''23456789TJQKA''. \<exists>s \<in> set ''cdhs''. c = [r, s])"
  by (simp add: full_deck_def)

lemma rank_char:
  assumes "r \<in> set ''23456789TJQKA''"
  shows "\<exists>v. RANK_TO_INT r = Some v \<and> 2 \<le> v \<and> v \<le> 14"
  using assms by (auto simp: RANK_TO_INT_def)

lemma deck_card_rank_suit:
  assumes "c \<in> set full_deck"
  shows "rank_of c = Inr (card_rank c) \<and> suit_of c = Inr (card_suit c)
    \<and> 2 \<le> card_rank c \<and> card_rank c \<le> 14"
proof -
  from assms obtain r s where c: "c = [r, s]" and r: "r \<in> set ''23456789TJQKA''"
    unfolding full_deck_iff by blast
  from rank_char [OF r] obtain v where v: "RANK_TO_INT r = Some v" "2 \<le> v" "v \<le> 14"
    by blast
  show ?thesis
    by (simp add: c v rank_of_def suit_of_def card_rank_def card_suit_def py_index_def bindE_def)
qed

lemma mapE_total: "(\<And>x. x \<in> set xs \<Longrightarrow> f x = Inr (g x)) \<Longrightarrow> mapE f xs = Inr (map g xs)"
  by (induction xs) (simp_all add: bindE_def)

lemma py_sorted_rev_id: "py_sorted_rev (\<lambda>r. r) (rs :: int list) = rev (sort rs)"
proof -
  have "sort (rev rs) = sort rs"
    by (rule properties_for_sort) simp_all
  then show ?thesis by (simp add: py_sorted_rev_def)
qed

lemma list5: "length xs = 5 \<Longrightarrow> \<exists>a b c d e. xs = [a, b, c, d, e]"
  by (simp add: numeral_eq_Suc length_Suc_conv) blast

lemma desc5:
  assumes "length (rs :: int list) = 5"
  shows "\<exists>a b c d e. rev (sort rs) = [a, b, c, d, e] \<and> a \<ge> b \<and> b \<ge> c \<and> c \<ge> d \<and> d \<ge> e"
proof -
  have "length (sort rs) = 5" using assms by simp
  from list5 [OF this] obtain e d c b a where s: "sort rs = [e, d, c, b, a]"
    by blast
  have "sorted (sort rs)" by simp
  then have "sorted [e, d, c, b, a]" unfolding s .
  then have "a \<ge> b \<and> b \<ge> c \<and> c \<ge> d \<and> d \<ge> e" by simp
  then show ?thesis unfolding s by simp
qed

lemma flush_iff: "ss \<noteq> [] \<Longrightarrow> (card (set ss) = 1) = spec_is_flush ss"
proof -
  assume ne: "ss \<noteq> []"
  have "(card (set ss) = 1) = (\<exists>x. set ss = {x})"
    by (simp add: card_1_singleton_iff)
  also have "\<dots> = (\<forall>s \<in> set ss. s = hd ss)"
    using ne by (cases ss) auto
  finally show ?thesis by (simp add: spec_is_flush_def list_all_iff)
qed


lemma classify_law:
  assumes "a \<ge> b" "b \<ge> c" "c \<ge> d" "d \<ge> e" "length ss = 5"
  shows "eval5_classify [a, b, c, d, e] ss = Inr (spec_rank [a, b, c, d, e] ss)"
proof -
  have "ss \<noteq> []" using assms(5) by auto
  from flush_iff [OF this] have f: "(card (set ss) = Suc 0) = spec_is_flush ss"
    by simp
  show ?thesis
    using assms(1-4)
    apply (cases "a = b"; cases "b = c"; cases "c = d"; cases "d = e")
    apply (simp_all add: eval5_classify_def spec_rank_def Let_def Counter_def py_sorted_rev_def
        py_index_def bindE_def py_max_def ranks_with_count_def spec_straight_high_def f)
    apply (auto)
    done
qed

lemma ranks_with_count_mset:
  assumes "mset xs = mset ys"
  shows "ranks_with_count k xs = ranks_with_count k ys"
proof -
  have c: "count_list xs r = count_list ys r" for r
    using assms by (metis count_mset)
  have s: "set xs = set ys" using assms by (rule mset_eq_setD)
  have "set (filter (\<lambda>r. count_list xs r = k) xs) = set (filter (\<lambda>r. count_list ys r = k) ys)"
    by (simp add: c s)
  then have "sort (remdups (filter (\<lambda>r. count_list xs r = k) xs))
     = sort (remdups (filter (\<lambda>r. count_list ys r = k) ys))"
    by (metis sorted_list_of_set_sort_remdups)
  then show ?thesis by (simp add: ranks_with_count_def)
qed

lemma spec_rank_mset:
  assumes "mset xs = mset ys"
  shows "spec_rank xs ss = spec_rank ys ss"
proof -
  have "sort xs = sort ys"
    using assms by (intro properties_for_sort) simp_all
  then show ?thesis
    by (simp add: spec_rank_def spec_straight_high_def ranks_with_count_mset [OF assms])
qed

lemma hand5_cards: "hand5 h \<Longrightarrow> c \<in> set h \<Longrightarrow> c \<in> set full_deck"
  by (simp add: hand5_def list_all_iff)

lemma eval5_on_deck:
  assumes v: "list_all (\<lambda>c. c \<in> set full_deck) h"
  shows "eval5 h = eval5_classify (rev (sort (map card_rank h))) (map card_suit h)"
proof -
  have r: "mapE rank_of h = Inr (map card_rank h)"
    using v by (intro mapE_total) (simp add: list_all_iff deck_card_rank_suit)
  have s: "mapE suit_of h = Inr (map card_suit h)"
    using v by (intro mapE_total) (simp add: list_all_iff deck_card_rank_suit)
  show ?thesis
    by (simp add: eval5_def r s bindE_def py_sorted_rev_id)
qed

lemma eval5_spec:
  assumes "hand5 h"
  shows "eval5 h = Inr (spec_eval5 h)"
proof -
  let ?rs = "map card_rank h"
  have len: "length ?rs = 5" using assms by (simp add: hand5_def)
  from desc5 [OF len] obtain a b c d e where
    d: "rev (sort ?rs) = [a, b, c, d, e]" and o: "a \<ge> b" "b \<ge> c" "c \<ge> d" "d \<ge> e"
    by blast
  have ls: "length (map card_suit h) = 5" using assms by (simp add: hand5_def)
  have m: "mset [a, b, c, d, e] = mset ?rs"
    unfolding d [symmetric] by simp
  have "eval5 h = eval5_classify [a, b, c, d, e] (map card_suit h)"
    using assms by (simp add: eval5_on_deck hand5_def d)
  also have "\<dots> = Inr (spec_rank [a, b, c, d, e] (map card_suit h))"
    by (rule classify_law [OF o ls])
  also have "\<dots> = Inr (spec_eval5 h)"
    by (simp add: spec_eval5_def spec_rank_mset [OF m])
  finally show ?thesis .
qed

lemma tup_gt_ints: "tup_gt (map PInt xs) (map PInt ys) = Inr (ys < xs)"
proof (induction xs arbitrary: ys)
  case Nil
  show ?case by simp
next
  case (Cons x xs)
  show ?case by (cases ys) (auto simp: Cons.IH)
qed

lemma flat_ints: "concat (map (flat \<circ> PInt) xs) = xs"
  by (induction xs) simp_all

lemma map_PInt_inj: "(map PInt xs = map PInt ys) = (xs = ys)"
  by (simp add: inj_map_eq_map inj_on_def)

lemma py_gt_flat:
  assumes "handrank a" "handrank b"
  shows "py_gt a b = Inr (flat b < flat a)"
  using assms unfolding handrank_def
  apply (elim disjE exE conjE)
  apply (simp_all add: tup_gt_ints flat_ints map_PInt_inj)
  apply auto
  done

lemma flat_inj:
  assumes "handrank a" "handrank b" "flat a = flat b"
  shows "a = b"
  using assms unfolding handrank_def
  apply (elim disjE exE conjE)
  apply (simp_all add: flat_ints)
  apply auto
  done

lemma mixed_suits_not_flush:
  assumes "mixed_suits h"
  shows "\<not> spec_is_flush (map card_suit h)"
proof
  assume "spec_is_flush (map card_suit h)"
  then have "\<forall>c \<in> set h. card_suit c = hd (map card_suit h)"
    by (simp add: spec_is_flush_def list_all_iff)
  with assms show False by (auto simp: mixed_suits_def)
qed

lemma spec_rank_wheel:
  assumes "\<not> spec_is_flush ss"
  shows "spec_rank [2, 3, 4, 5, 14] ss = PTup [PInt 4, PInt 5]"
  using assms
  by (simp add: spec_rank_def Let_def spec_straight_high_def ranks_with_count_def)

lemma spec_rank_ten_high:
  assumes "\<not> spec_is_flush ss"
  shows "spec_rank [6, 7, 8, 9, 10] ss = PTup [PInt 4, PInt 10]"
  using assms
  by (simp add: spec_rank_def Let_def spec_straight_high_def ranks_with_count_def)

lemma eval5_of_sorted_ranks:
  assumes "hand5 h" and "sort (map card_rank h) = rs"
  shows "eval5 h = Inr (spec_rank rs (map card_suit h))"
proof -
  have "mset rs = mset (map card_rank h)"
    unfolding assms(2) [symmetric] by simp
  from spec_rank_mset [OF this] show ?thesis
    by (simp add: eval5_spec [OF assms(1)] spec_eval5_def)
qed

text \<open>
  Claim C8. Every ace-low wheel in mixed suits, that is every hand of five cards of
  the deck whose ranks are A, 2, 3, 4, 5 in any order and whose suits are not all the
  same, is classified by \<^const>\<open>eval5\<close> as a straight (category 4) with high card 5.
  Every such hand of the ranks 6, 7, 8, 9, T is a straight with high card 10. The
  wheel compares strictly below it: the ten-high straight is greater than the wheel,
  and the wheel is not greater than the ten-high straight.
\<close>

theorem wheel_is_five_high_straight:
  assumes "hand5 w" and "sort (map card_rank w) = [2, 3, 4, 5, 14]" and "mixed_suits w"
    and "hand5 t" and "sort (map card_rank t) = [6, 7, 8, 9, 10]" and "mixed_suits t"
  shows "eval5 w = Inr (PTup [PInt 4, PInt 5])
     \<and> eval5 t = Inr (PTup [PInt 4, PInt 10])
     \<and> bindE (eval5 w) (\<lambda>wheel. bindE (eval5 t) (\<lambda>ten_high. py_gt ten_high wheel)) = Inr True
     \<and> bindE (eval5 w) (\<lambda>wheel. bindE (eval5 t) (\<lambda>ten_high. py_gt wheel ten_high)) = Inr False"
proof -
  have w: "eval5 w = Inr (PTup [PInt 4, PInt 5])"
    using eval5_of_sorted_ranks [OF assms(1,2)] mixed_suits_not_flush [OF assms(3)]
    by (simp add: spec_rank_wheel)
  have t: "eval5 t = Inr (PTup [PInt 4, PInt 10])"
    using eval5_of_sorted_ranks [OF assms(4,5)] mixed_suits_not_flush [OF assms(6)]
    by (simp add: spec_rank_ten_high)
  show ?thesis by (simp add: w t bindE_def)
qed

text \<open>
  The wheel of spades, diamonds, clubs and hearts against 6-7-8-9-T in mixed suits.
\<close>

theorem wheel_is_five_high_straight_witness:
  "hand5 [''As'', ''2d'', ''3c'', ''4h'', ''5s'']
   \<and> sort (map card_rank [''As'', ''2d'', ''3c'', ''4h'', ''5s'']) = [2, 3, 4, 5, 14]
   \<and> mixed_suits [''As'', ''2d'', ''3c'', ''4h'', ''5s'']
   \<and> hand5 [''6c'', ''7d'', ''8h'', ''9s'', ''Td'']
   \<and> sort (map card_rank [''6c'', ''7d'', ''8h'', ''9s'', ''Td'']) = [6, 7, 8, 9, 10]
   \<and> mixed_suits [''6c'', ''7d'', ''8h'', ''9s'', ''Td'']
   \<and> eval5 [''As'', ''2d'', ''3c'', ''4h'', ''5s''] = Inr (PTup [PInt 4, PInt 5])
   \<and> eval5 [''6c'', ''7d'', ''8h'', ''9s'', ''Td''] = Inr (PTup [PInt 4, PInt 10])
   \<and> bindE (eval5 [''As'', ''2d'', ''3c'', ''4h'', ''5s'']) (\<lambda>wheel.
       bindE (eval5 [''6c'', ''7d'', ''8h'', ''9s'', ''Td'']) (\<lambda>ten_high.
         py_gt ten_high wheel)) = Inr True
   \<and> bindE (eval5 [''As'', ''2d'', ''3c'', ''4h'', ''5s'']) (\<lambda>wheel.
       bindE (eval5 [''6c'', ''7d'', ''8h'', ''9s'', ''Td'']) (\<lambda>ten_high.
         py_gt wheel ten_high)) = Inr False"
proof -
  have w: "hand5 [''As'', ''2d'', ''3c'', ''4h'', ''5s'']"
    "sort (map card_rank [''As'', ''2d'', ''3c'', ''4h'', ''5s'']) = [2, 3, 4, 5, 14]"
    "mixed_suits [''As'', ''2d'', ''3c'', ''4h'', ''5s'']"
    by code_simp+
  have t: "hand5 [''6c'', ''7d'', ''8h'', ''9s'', ''Td'']"
    "sort (map card_rank [''6c'', ''7d'', ''8h'', ''9s'', ''Td'']) = [6, 7, 8, 9, 10]"
    "mixed_suits [''6c'', ''7d'', ''8h'', ''9s'', ''Td'']"
    by code_simp+
  from wheel_is_five_high_straight [OF w t] w t show ?thesis by blast
qed

lemma handrank_intros:
  "handrank (PTup [PInt 8, PInt x])" "handrank (PTup [PInt 4, PInt x])"
  "handrank (PTup [PInt 7, PInt x, PInt y])" "handrank (PTup [PInt 6, PInt x, PInt y])"
  "handrank (PTup [PInt 5, PTup (map PInt xs)])" "handrank (PTup [PInt 0, PTup (map PInt xs)])"
  "handrank (PTup [PInt 3, PInt x, PTup (map PInt xs)])"
  "handrank (PTup [PInt 1, PInt x, PTup (map PInt xs)])"
  "handrank (PTup [PInt 2, PInt x, PInt y, PInt z])"
  unfolding handrank_def by (simp_all add: map_PInt_inj)

lemma handrank_spec_rank: "handrank (spec_rank rs ss)"
  by (simp add: spec_rank_def Let_def handrank_intros)

lemma handrank_spec_eval5: "handrank (spec_eval5 h)"
  by (simp add: spec_eval5_def handrank_spec_rank)

lemma handrank_not_None: "handrank v \<Longrightarrow> v \<noteq> PNone"
  by (auto simp: handrank_def)

text \<open>
  Claim C1. For every hand of five cards of the deck, \<^const>\<open>eval5\<close> returns the rank
  that the specification's law \<^const>\<open>spec_eval5\<close> prescribes: straight flush (8, high
  card of the straight) above four of a kind (7, quad rank, kicker) above full house
  (6, trips rank, pair rank) above flush (5, the five ranks descending) above straight
  (4, high card) above three of a kind (3, trips rank, kickers descending) above two
  pair (2, higher pair, lower pair, kicker) above one pair (1, pair rank, kickers
  descending) above high card (0, the five ranks descending). The values of any hands
  are comparable without a type error, and the comparison is a total order on them:
  of two values exactly one is greater or they are equal (the same category and the
  same payload), and the comparison is transitive.
\<close>

theorem eval5_ranking_law:
  assumes "hand5 h1" "hand5 h2" "hand5 h3"
  shows "\<exists>v1 v2 v3.
      eval5 h1 = Inr v1 \<and> eval5 h2 = Inr v2 \<and> eval5 h3 = Inr v3
    \<and> v1 = spec_eval5 h1
    \<and> (\<exists>b. py_gt v1 v2 = Inr b)
    \<and> (py_gt v1 v2 = Inr True \<or> v1 = v2 \<or> py_gt v2 v1 = Inr True)
    \<and> \<not> (py_gt v1 v2 = Inr True \<and> v1 = v2)
    \<and> \<not> (py_gt v1 v2 = Inr True \<and> py_gt v2 v1 = Inr True)
    \<and> (py_gt v1 v2 = Inr True \<and> py_gt v2 v3 = Inr True \<longrightarrow> py_gt v1 v3 = Inr True)"
proof -
  let ?v1 = "spec_eval5 h1" and ?v2 = "spec_eval5 h2" and ?v3 = "spec_eval5 h3"
  have e: "eval5 h1 = Inr ?v1" "eval5 h2 = Inr ?v2" "eval5 h3 = Inr ?v3"
    using assms by (simp_all add: eval5_spec)
  have g12: "py_gt ?v1 ?v2 = Inr (flat ?v2 < flat ?v1)"
    and g21: "py_gt ?v2 ?v1 = Inr (flat ?v1 < flat ?v2)"
    and g23: "py_gt ?v2 ?v3 = Inr (flat ?v3 < flat ?v2)"
    and g13: "py_gt ?v1 ?v3 = Inr (flat ?v3 < flat ?v1)"
    by (simp_all add: py_gt_flat handrank_spec_eval5)
  have tri: "flat ?v2 < flat ?v1 \<or> ?v1 = ?v2 \<or> flat ?v1 < flat ?v2"
    using flat_inj [OF handrank_spec_eval5 handrank_spec_eval5, of h1 h2]
    by (cases "flat ?v1 = flat ?v2") auto
  have irr: "\<not> (flat ?v2 < flat ?v1 \<and> ?v1 = ?v2)" by auto
  have asym: "\<not> (flat ?v2 < flat ?v1 \<and> flat ?v1 < flat ?v2)" by auto
  have tr: "flat ?v2 < flat ?v1 \<and> flat ?v3 < flat ?v2 \<longrightarrow> flat ?v3 < flat ?v1" by auto
  show ?thesis
    unfolding e
    apply (rule exI [of _ ?v1], rule exI [of _ ?v2], rule exI [of _ ?v3])
    unfolding g12 g21 g23 g13
    using tri irr asym tr by simp
qed

text \<open>
  The law at a royal flush, a full house and a pair of sevens.
\<close>

theorem eval5_ranking_law_witness:
  "hand5 [''Ah'', ''Kh'', ''Qh'', ''Jh'', ''Th''] \<and> hand5 [''8s'', ''8d'', ''8c'', ''2h'', ''2s'']
   \<and> hand5 [''Ad'', ''Kh'', ''7h'', ''7c'', ''2d'']
   \<and> eval5 [''Ah'', ''Kh'', ''Qh'', ''Jh'', ''Th''] = Inr (PTup [PInt 8, PInt 14])
   \<and> eval5 [''8s'', ''8d'', ''8c'', ''2h'', ''2s''] = Inr (PTup [PInt 6, PInt 8, PInt 2])
   \<and> eval5 [''Ad'', ''Kh'', ''7h'', ''7c'', ''2d'']
       = Inr (PTup [PInt 1, PInt 7, PTup [PInt 14, PInt 13, PInt 2]])
   \<and> spec_eval5 [''Ah'', ''Kh'', ''Qh'', ''Jh'', ''Th''] = PTup [PInt 8, PInt 14]
   \<and> py_gt (PTup [PInt 8, PInt 14]) (PTup [PInt 6, PInt 8, PInt 2]) = Inr True
   \<and> py_gt (PTup [PInt 8, PInt 14]) (PTup [PInt 1, PInt 7, PTup [PInt 14, PInt 13, PInt 2]])
       = Inr True"
proof -
  have h: "hand5 [''Ah'', ''Kh'', ''Qh'', ''Jh'', ''Th'']"
    "hand5 [''8s'', ''8d'', ''8c'', ''2h'', ''2s'']"
    "hand5 [''Ad'', ''Kh'', ''7h'', ''7c'', ''2d'']"
    by code_simp+
  have e: "eval5 [''Ah'', ''Kh'', ''Qh'', ''Jh'', ''Th''] = Inr (PTup [PInt 8, PInt 14])"
    "eval5 [''8s'', ''8d'', ''8c'', ''2h'', ''2s''] = Inr (PTup [PInt 6, PInt 8, PInt 2])"
    "eval5 [''Ad'', ''Kh'', ''7h'', ''7c'', ''2d'']
       = Inr (PTup [PInt 1, PInt 7, PTup [PInt 14, PInt 13, PInt 2]])"
    by code_simp+
  from eval5_ranking_law [OF h] obtain v1 v2 v3 where
    r: "eval5 [''Ah'', ''Kh'', ''Qh'', ''Jh'', ''Th''] = Inr v1"
      "v1 = spec_eval5 [''Ah'', ''Kh'', ''Qh'', ''Jh'', ''Th'']"
    by blast
  have s: "spec_eval5 [''Ah'', ''Kh'', ''Qh'', ''Jh'', ''Th''] = PTup [PInt 8, PInt 14]"
    using r e(1) by simp
  show ?thesis
    using h e s by simp
qed

section \<open>Properties of the best-hand search\<close>

lemma combinations_map: "combinations (map f xs) k = map (map f) (combinations xs k)"
proof (induction xs arbitrary: k)
  case Nil
  show ?case by (cases k) simp_all
next
  case (Cons x xs)
  show ?case by (cases k) (simp_all add: Cons.IH)
qed

lemma combinations_nth:
  "map (map ((!) cs)) (combinations [0..<length cs] k) = combinations cs k"
proof -
  have "combinations (map ((!) cs) [0..<length cs]) k = combinations cs k"
    by (simp add: map_nth)
  then show ?thesis by (simp add: combinations_map)
qed

lemma set_combinations: "set (combinations xs k) = {ys. subseq ys xs \<and> length ys = k}"
proof (induction xs arbitrary: k)
  case Nil
  show ?case by (cases k) auto
next
  case (Cons x xs)
  show ?case
  proof (cases k)
    case 0
    then show ?thesis by auto
  next
    case (Suc j)
    have "{ys. subseq ys (x # xs) \<and> length ys = Suc j}
        = (#) x ` {ys. subseq ys xs \<and> length ys = j} \<union> {ys. subseq ys xs \<and> length ys = Suc j}"
      (is "?L = ?R")
    proof (intro set_eqI iffI)
      fix ys assume "ys \<in> ?L"
      then have s: "subseq ys (x # xs)" and l: "length ys = Suc j" by auto
      from l obtain y zs where ys: "ys = y # zs" "length zs = j"
        by (auto simp: length_Suc_conv)
      show "ys \<in> ?R"
      proof (cases "x = y")
        case True
        with s ys show ?thesis by auto
      next
        case False
        with s ys l show ?thesis by (auto simp: subseq_Cons2_iff)
      qed
    next
      fix ys assume "ys \<in> ?R"
      then show "ys \<in> ?L" by auto
    qed
    then show ?thesis using Suc by (simp add: Cons.IH)
  qed
qed

lemma eval7_loop_max:
  assumes "\<And>idxs. idxs \<in> set idxss \<Longrightarrow> hand5 (map ((!) cards) idxs)"
    and "best = PNone \<or> handrank best"
  shows "\<exists>r. eval7_loop cards idxss best = Inr r
      \<and> (r = best \<or> (\<exists>idxs \<in> set idxss. r = spec_eval5 (map ((!) cards) idxs)))
      \<and> flat best \<le> flat r
      \<and> (\<forall>idxs \<in> set idxss. flat (spec_eval5 (map ((!) cards) idxs)) \<le> flat r)"
  using assms
proof (induction idxss arbitrary: best)
  case Nil
  show ?case by simp
next
  case (Cons idxs rest)
  let ?score = "spec_eval5 (map ((!) cards) idxs)"
  have e: "eval5 (map ((!) cards) idxs) = Inr ?score"
    by (rule eval5_spec) (simp add: Cons.prems(1))
  have hs: "handrank ?score" by (rule handrank_spec_eval5)
  define b where "b = (best = PNone \<or> flat best < flat ?score)"
  define best' where "best' = (if b then ?score else best)"
  have cmp: "(if best = PNone then Inr True else py_gt ?score best) = Inr b"
    using Cons.prems(2) hs by (auto simp: b_def py_gt_flat)
  have step: "eval7_loop cards (idxs # rest) best = eval7_loop cards rest best'"
    by (simp add: e cmp bindE_def best'_def)
  have hb: "best' = PNone \<or> handrank best'"
    using Cons.prems(2) hs by (auto simp: best'_def)
  have le1: "flat best \<le> flat best'" and le2: "flat ?score \<le> flat best'"
    by (auto simp: best'_def b_def)
  have src: "best' = best \<or> best' = ?score" by (auto simp: best'_def)
  from Cons.IH [OF _ hb] Cons.prems(1) obtain r where
    r: "eval7_loop cards rest best' = Inr r"
      "r = best' \<or> (\<exists>idxs \<in> set rest. r = spec_eval5 (map ((!) cards) idxs))"
      "flat best' \<le> flat r"
      "\<forall>idxs \<in> set rest. flat (spec_eval5 (map ((!) cards) idxs)) \<le> flat r"
    by auto
  show ?case
    unfolding step
    apply (rule exI [of _ r])
    using r le1 le2 src by auto
qed


lemma subseq_hand5:
  assumes "deck_cards cards" "subseq h cards" "length h = 5"
  shows "hand5 h"
proof -
  have "c \<in> set full_deck" if "c \<in> set h" for c
  proof -
    from list_emb_set [OF assms(2) that] obtain y where "y \<in> set cards" "c = y" by blast
    with assms(1) show ?thesis by (simp add: deck_cards_def list_all_iff)
  qed
  with assms(3) show ?thesis by (simp add: hand5_def list_all_iff)
qed

lemma handrank_flat_nonempty: "handrank v \<Longrightarrow> flat v \<noteq> []"
  by (auto simp: handrank_def)

lemma eval7_best:
  assumes d: "deck_cards cards" and n: "5 \<le> length cards"
  shows "\<exists>r. eval7 cards = Inr r \<and> handrank r
      \<and> (\<exists>h. subseq h cards \<and> length h = 5 \<and> r = spec_eval5 h)
      \<and> (\<forall>h. subseq h cards \<and> length h = 5 \<longrightarrow> flat (spec_eval5 h) \<le> flat r)"
proof (cases "length cards = 5")
  case True
  have h5: "hand5 cards" using d True by (simp add: hand5_def deck_cards_def)
  have e: "eval7 cards = Inr (spec_eval5 cards)"
    using True by (simp add: eval7_def eval5_spec [OF h5])
  have same: "h = cards" if "subseq h cards" "length h = 5" for h
    using that True by (intro subseq_same_length) simp_all
  show ?thesis
    unfolding e
    apply (rule exI [of _ "spec_eval5 cards"])
    using True same by (auto simp: handrank_spec_eval5 intro!: exI [of _ cards])
next
  case False
  let ?idxss = "combinations [0..<length cards] 5"
  have e: "eval7 cards = eval7_loop cards ?idxss PNone"
    using False n by (simp add: eval7_def)
  have img: "(\<lambda>idxs. map ((!) cards) idxs) ` set ?idxss = {h. subseq h cards \<and> length h = 5}"
    using set_combinations [of cards 5] combinations_nth [of cards 5]
    by (metis set_map)
  have ok: "hand5 (map ((!) cards) idxs)" if "idxs \<in> set ?idxss" for idxs
  proof -
    have "map ((!) cards) idxs \<in> {h. subseq h cards \<and> length h = 5}"
      using that img by blast
    then show ?thesis using subseq_hand5 [OF d] by simp
  qed
  from eval7_loop_max [of ?idxss cards PNone, OF ok] obtain r where
    r: "eval7_loop cards ?idxss PNone = Inr r"
      "r = PNone \<or> (\<exists>idxs \<in> set ?idxss. r = spec_eval5 (map ((!) cards) idxs))"
      "\<forall>idxs \<in> set ?idxss. flat (spec_eval5 (map ((!) cards) idxs)) \<le> flat r"
    by auto
  have all: "flat (spec_eval5 h) \<le> flat r" if "subseq h cards" "length h = 5" for h
  proof -
    from that img obtain idxs where "idxs \<in> set ?idxss" "h = map ((!) cards) idxs"
      by blast
    with r(3) show ?thesis by simp
  qed
  have "subseq (take 5 cards) cards" "length (take 5 cards) = 5"
    using n by (simp_all add: prefix_imp_subseq take_is_prefix)
  from all [OF this] handrank_flat_nonempty [OF handrank_spec_eval5, of "take 5 cards"]
  have ne: "r \<noteq> PNone" by auto
  with r(2) obtain idxs where i: "idxs \<in> set ?idxss" "r = spec_eval5 (map ((!) cards) idxs)"
    by blast
  then have mem: "map ((!) cards) idxs \<in> {h. subseq h cards \<and> length h = 5}"
    using img by blast
  show ?thesis
    unfolding e r(1)
    apply (rule exI [of _ r])
    using i(2) mem all by (auto simp: handrank_spec_eval5)
qed

text \<open>
  Claim C2. For every list of \<open>n\<close> cards of the deck with \<open>5 \<le> n \<le> 8\<close>,
  \<^const>\<open>eval7\<close> returns a value that is the \<^const>\<open>eval5\<close> value of one of the
  5-card subsequences of the input and that no 5-card subsequence exceeds under the
  full comparison of hand ranks (category, then payload): it is the maximum over all
  the 5-card subsets. For every list of at most five cards \<^const>\<open>eval7\<close> is the
  direct call of \<^const>\<open>eval5\<close>.
\<close>

theorem eval7_is_maximum:
  assumes "deck_cards cards" "5 \<le> length cards" "length cards \<le> 8"
  shows "\<exists>best. eval7 cards = Inr best
      \<and> (\<exists>h. subseq h cards \<and> length h = 5 \<and> eval5 h = Inr best)
      \<and> (\<forall>h. subseq h cards \<and> length h = 5 \<longrightarrow>
            (\<exists>v. eval5 h = Inr v \<and> py_gt v best = Inr False))
      \<and> (\<forall>cs. length cs \<le> 5 \<longrightarrow> eval7 cs = eval5 cs)"
proof -
  from eval7_best [OF assms(1,2)] obtain r where
    r: "eval7 cards = Inr r" "handrank r"
      "\<exists>h. subseq h cards \<and> length h = 5 \<and> r = spec_eval5 h"
      "\<forall>h. subseq h cards \<and> length h = 5 \<longrightarrow> flat (spec_eval5 h) \<le> flat r"
    by blast
  have a: "\<exists>h. subseq h cards \<and> length h = 5 \<and> eval5 h = Inr r"
    using r(3) subseq_hand5 [OF assms(1)] by (metis eval5_spec)
  have b: "\<exists>v. eval5 h = Inr v \<and> py_gt v r = Inr False"
    if "subseq h cards \<and> length h = 5" for h
  proof -
    have "hand5 h" using that subseq_hand5 [OF assms(1)] by blast
    then have "eval5 h = Inr (spec_eval5 h)" by (rule eval5_spec)
    moreover have "py_gt (spec_eval5 h) r = Inr False"
      using r(4) that by (simp add: py_gt_flat [OF handrank_spec_eval5 r(2)] not_less)
    ultimately show ?thesis by blast
  qed
  have c: "\<forall>cs. length cs \<le> 5 \<longrightarrow> eval7 cs = eval5 cs"
    by (simp add: eval7_def)
  show ?thesis
    using r(1) a b c by blast
qed

text \<open>
  The search on eight cards that hold queens full of nines.
\<close>

theorem eval7_is_maximum_witness:
  "deck_cards [''Ah'', ''Kh'', ''Qh'', ''Qd'', ''9h'', ''Qs'', ''9d'', ''2c'']
   \<and> eval7 [''Ah'', ''Kh'', ''Qh'', ''Qd'', ''9h'', ''Qs'', ''9d'', ''2c'']
       = Inr (PTup [PInt 6, PInt 12, PInt 9])
   \<and> eval5 [''Qh'', ''Qd'', ''9h'', ''Qs'', ''9d''] = Inr (PTup [PInt 6, PInt 12, PInt 9])
   \<and> py_gt (PTup [PInt 0, PTup [PInt 14, PInt 13, PInt 12, PInt 9, PInt 2]])
        (PTup [PInt 6, PInt 12, PInt 9]) = Inr False"
proof -
  let ?cs = "[''Ah'', ''Kh'', ''Qh'', ''Qd'', ''9h'', ''Qs'', ''9d'', ''2c'']"
  have d: "deck_cards ?cs" by code_simp
  have n: "5 \<le> length ?cs" "length ?cs \<le> 8" by simp_all
  have e: "eval7 ?cs = Inr (PTup [PInt 6, PInt 12, PInt 9])" by code_simp
  have e5: "eval5 [''Qh'', ''Qd'', ''9h'', ''Qs'', ''9d''] = Inr (PTup [PInt 6, PInt 12, PInt 9])"
    by code_simp
  have s: "subseq [''Ah'', ''Kh'', ''Qh'', ''9h'', ''2c''] ?cs \<and>
     length [''Ah'', ''Kh'', ''Qh'', ''9h'', ''2c''] = 5" by simp
  from eval7_is_maximum [OF d n] obtain best where
    b: "eval7 ?cs = Inr best"
      "\<forall>h. subseq h ?cs \<and> length h = 5 \<longrightarrow> (\<exists>v. eval5 h = Inr v \<and> py_gt v best = Inr False)"
    by blast
  have best: "best = PTup [PInt 6, PInt 12, PInt 9]" using b(1) e by simp
  from b(2) s obtain v where
    v: "eval5 [''Ah'', ''Kh'', ''Qh'', ''9h'', ''2c''] = Inr v" "py_gt v best = Inr False"
    by blast
  have "eval5 [''Ah'', ''Kh'', ''Qh'', ''9h'', ''2c'']
      = Inr (PTup [PInt 0, PTup [PInt 14, PInt 13, PInt 12, PInt 9, PInt 2]])"
    by code_simp
  with v best have "py_gt (PTup [PInt 0, PTup [PInt 14, PInt 13, PInt 12, PInt 9, PInt 2]])
        (PTup [PInt 6, PInt 12, PInt 9]) = Inr False" by simp
  with d e e5 show ?thesis by simp
qed

section \<open>Properties of the equity simulation\<close>

lemma deck_cards_append: "deck_cards (xs @ ys) = (deck_cards xs \<and> deck_cards ys)"
  by (simp add: deck_cards_def)

lemma eval7_total:
  assumes "deck_cards cards" "5 \<le> length cards"
  shows "\<exists>v. eval7 cards = Inr v \<and> handrank v"
  using eval7_best [OF assms] by blast

lemma list3: "length xs = 3 \<Longrightarrow> \<exists>a b c. xs = [a, b, c]"
  by (simp add: numeral_eq_Suc length_Suc_conv) blast

lemma upt3: "[0..<3] = [0, 1, 2]"
  by (simp add: upt_rec)

lemma best_two_from_three_total:
  assumes l: "length cards3 = 3" and c: "deck_cards cards3" and b: "deck_cards bd"
    and n: "3 \<le> length bd"
  shows "\<exists>keep. best_two_from_three cards3 bd = Inr (Some keep) \<and> length keep = 2
           \<and> deck_cards keep"
proof -
  from list3 [OF l] obtain x y z where xs: "cards3 = [x, y, z]" by blast
  have d: "deck_cards [y, z]" "deck_cards [x, z]" "deck_cards [x, y]"
    using c by (simp_all add: xs deck_cards_def)
  have "\<exists>v. eval7 ([y, z] @ bd) = Inr v \<and> handrank v"
    using d b n by (intro eval7_total) (simp_all add: deck_cards_def)
  then obtain v0 where v0: "eval7 (y # z # bd) = Inr v0" "handrank v0" by auto
  have "\<exists>v. eval7 ([x, z] @ bd) = Inr v \<and> handrank v"
    using d b n by (intro eval7_total) (simp_all add: deck_cards_def)
  then obtain v1 where v1: "eval7 (x # z # bd) = Inr v1" "handrank v1" by auto
  have "\<exists>v. eval7 ([x, y] @ bd) = Inr v \<and> handrank v"
    using d b n by (intro eval7_total) (simp_all add: deck_cards_def)
  then obtain v2 where v2: "eval7 (x # y # bd) = Inr v2" "handrank v2" by auto
  have nn: "v0 \<noteq> PNone" "v1 \<noteq> PNone" "v2 \<noteq> PNone"
    using v0 v1 v2 by (simp_all add: handrank_not_None)
  have g: "py_gt v1 v0 = Inr (flat v0 < flat v1)" "py_gt v2 v0 = Inr (flat v0 < flat v2)"
    "py_gt v2 v1 = Inr (flat v1 < flat v2)"
    using v0 v1 v2 by (simp_all add: py_gt_flat)
  show ?thesis
    using d
    by (simp add: best_two_from_three_def xs upt3 py_index_def bindE_def v0 v1 v2 nn g)
qed

lemma runout_total:
  assumes "d + (6 - length sb) \<le> length deck" "deck_cards deck" "deck_cards sb"
  shows "\<exists>sb' d'. runout deck sb d = Inr (sb', d') \<and> deck_cards sb' \<and> length sb \<le> length sb'"
  using assms
proof (induction deck sb d rule: runout.induct)
  case (1 deck sim_board d)
  show ?case
  proof (cases "length sim_board < 6")
    case True
    then have dl: "d < length deck" using "1.prems"(1) by simp
    have dc: "deck_cards (sim_board @ [deck ! d])"
      using "1.prems"(2,3) dl by (simp add: deck_cards_def list_all_iff)
    have "d + 1 + (6 - length (sim_board @ [deck ! d])) \<le> length deck"
      using "1.prems"(1) True by simp
    from "1.IH" [OF True dl this "1.prems"(2) dc]
    obtain sb' d' where "runout deck (sim_board @ [deck ! d]) (d + 1) = Inr (sb', d')"
      "deck_cards sb'" "length (sim_board @ [deck ! d]) \<le> length sb'" by blast
    then show ?thesis
      using True dl by (subst runout.simps) auto
  next
    case False
    then show ?thesis
      using "1.prems"(3) by (subst runout.simps) simp
  qed
qed


lemma deck_cards_mset: "mset xs = mset ys \<Longrightarrow> deck_cards xs = deck_cards ys"
  by (auto simp: deck_cards_def list_all_iff dest: mset_eq_setD)

lemma sim_iteration_total:
  assumes perm: "permuting shuffle"
    and my: "deck_cards my_cards" "length my_cards = 2 \<or> length my_cards = 3"
    and bd: "deck_cards board" "3 \<le> length board"
    and dk: "deck_cards deck" "9 \<le> length deck"
  shows "\<exists>deck' g' w'. sim_iteration shuffle my_cards board (deck, g, w) = Inr (deck', g', w')
           \<and> mset deck' = mset deck \<and> w \<le> w' \<and> w' \<le> w + 1"
proof -
  define deck' where "deck' = fst (shuffle g deck)"
  define g' where "g' = snd (shuffle g deck)"
  have m: "mset deck' = mset deck" using perm by (simp add: deck'_def permuting_def)
  have dk': "deck_cards deck'" using dk(1) deck_cards_mset [OF m] by simp
  have len: "length deck' = length deck" using m by (rule mset_eq_length)
  define opp3 where "opp3 = [deck' ! 0, deck' ! 1, deck' ! 2]"
  have o3: "mapE (py_index deck') [0, 1, 2] = Inr opp3"
    using dk(2) len by (auto simp: py_index_def bindE_def opp3_def)
  have "deck' ! 0 \<in> set deck'" "deck' ! 1 \<in> set deck'" "deck' ! 2 \<in> set deck'"
    using dk(2) len by (simp_all only: nth_mem)
  then have do3: "deck_cards opp3"
    using dk' by (simp add: opp3_def deck_cards_def list_all_iff)
  have "\<exists>keep. (if length my_cards = 3 then best_two_from_three my_cards board
                  else Inr (Some my_cards)) = Inr (Some keep)
               \<and> length keep = 2 \<and> deck_cards keep"
  proof (cases "length my_cards = 3")
    case True
    with best_two_from_three_total [OF True my(1) bd] show ?thesis by simp
  next
    case False
    with my show ?thesis by simp
  qed
  then obtain my2 where my2:
    "(if length my_cards = 3 then best_two_from_three my_cards board
      else Inr (Some my_cards)) = Inr (Some my2)" "length my2 = 2" "deck_cards my2"
    by blast
  from best_two_from_three_total [OF _ do3 bd] obtain opp2 where opp2:
    "best_two_from_three opp3 board = Inr (Some opp2)" "length opp2 = 2" "deck_cards opp2"
    by (auto simp: opp3_def)
  have "3 + (6 - length board) \<le> length deck'" using dk(2) len by simp
  from runout_total [OF this dk' bd(1)] obtain sb d where ro:
    "runout deck' board 3 = Inr (sb, d)" "deck_cards sb" "length board \<le> length sb"
    by blast
  have "\<exists>v. eval7 (my2 @ sb) = Inr v \<and> handrank v"
    using my2 ro bd(2) by (intro eval7_total) (simp_all add: deck_cards_append)
  then obtain s1 where s1: "eval7 (my2 @ sb) = Inr s1" "handrank s1" by blast
  have "\<exists>v. eval7 (opp2 @ sb) = Inr v \<and> handrank v"
    using opp2 ro bd(2) by (intro eval7_total) (simp_all add: deck_cards_append)
  then obtain s2 where s2: "eval7 (opp2 @ sb) = Inr s2" "handrank s2" by blast
  have gt: "py_gt s1 s2 = Inr (flat s2 < flat s1)"
    using s1 s2 by (simp add: py_gt_flat)
  have "sim_iteration shuffle my_cards board (deck, g, w) =
      Inr (deck', g', if flat s2 < flat s1 then w + 1 else if s1 = s2 then w + 1 / 2 else w)"
    unfolding sim_iteration_def Let_def fst_conv snd_conv deck'_def [symmetric]
      g'_def [symmetric] o3 my2(1) opp2(1) ro(1) bindE_def sum.case py_concat_def
      option.case s1(1) s2(1) gt
    by simp
  then show ?thesis using m by auto
qed

lemma sim_loop_total:
  assumes perm: "permuting shuffle"
    and my: "deck_cards my_cards" "length my_cards = 2 \<or> length my_cards = 3"
    and bd: "deck_cards board" "3 \<le> length board"
    and dk: "deck_cards deck" "9 \<le> length deck"
  shows "\<exists>deck' g' w'. sim_loop shuffle my_cards board k (deck, g, w) = Inr (deck', g', w')
           \<and> w \<le> w' \<and> w' \<le> w + of_nat k"
  using dk
proof (induction k arbitrary: deck g w)
  case 0
  show ?case by simp
next
  case (Suc k)
  from sim_iteration_total [OF perm my bd Suc.prems, where g = g and w = w] obtain deck1 g1 w1 where
    it: "sim_iteration shuffle my_cards board (deck, g, w) = Inr (deck1, g1, w1)"
      "mset deck1 = mset deck" "w \<le> w1" "w1 \<le> w + 1"
    by blast
  have d1: "deck_cards deck1" "9 \<le> length deck1"
    using Suc.prems deck_cards_mset [OF it(2)] mset_eq_length [OF it(2)] by simp_all
  from Suc.IH [OF d1, where g = g1 and w = w1] obtain deck' g' w' where
    "sim_loop shuffle my_cards board k (deck1, g1, w1) = Inr (deck', g', w')"
    "w1 \<le> w'" "w' \<le> w1 + of_nat k"
    by blast
  then show ?case
    using it by (simp add: bindE_def)
qed

lemma full_deck_distinct: "distinct full_deck"
  by (simp add: full_deck_def)

lemma full_deck_length: "length full_deck = 52"
  by (simp add: full_deck_def)

lemma remaining_deck_length:
  "52 \<le> length (filter (\<lambda>c. c \<notin> set used) full_deck) + length used"
proof -
  have "length (filter (\<lambda>c. c \<in> set used) full_deck) = card (set full_deck \<inter> set used)"
    using distinct_card [of "filter (\<lambda>c. c \<in> set used) full_deck"] full_deck_distinct
    by (simp add: Int_def conj_commute)
  also have "\<dots> \<le> card (set used)" by (intro card_mono) simp_all
  also have "\<dots> \<le> length used" by (rule card_length)
  finally have "length (filter (\<lambda>c. c \<in> set used) full_deck) \<le> length used" .
  moreover have "length (filter (\<lambda>c. c \<in> set used) full_deck)
      + length (filter (\<lambda>c. c \<notin> set used) full_deck) = 52"
    using sum_length_filter_compl [of "\<lambda>c. c \<in> set used" full_deck]
    by (simp add: full_deck_length)
  ultimately show ?thesis by simp
qed

lemma calculate_equity_python_total:
  assumes perm: "permuting shuffle"
    and my: "deck_cards my_cards" "length my_cards = 2 \<or> length my_cards = 3"
    and bd: "deck_cards board" "3 \<le> length board" "length board \<le> 7"
    and it: "1 \<le> iterations"
  shows "\<exists>e g'. calculate_equity_python shuffle my_cards board iterations g = Inr (e, g')
           \<and> 0 \<le> e \<and> e \<le> 1"
proof -
  let ?deck = "filter (\<lambda>c. c \<notin> set (my_cards @ board)) full_deck"
  have d: "deck_cards ?deck" by (simp add: deck_cards_def list_all_iff)
  have l: "9 \<le> length ?deck"
    using remaining_deck_length [of "my_cards @ board"] my(2) bd(3) by auto
  from sim_loop_total [OF perm my bd(1,2) d l, where k = "nat iterations" and g = g and w = 0]
  obtain deck' g' w' where
    r: "sim_loop shuffle my_cards board (nat iterations) (?deck, g, 0) = Inr (deck', g', w')"
      "0 \<le> w'" "w' \<le> of_nat (nat iterations)"
    by auto
  have n: "(of_nat (nat iterations) :: rat) = of_int iterations" using it by simp
  have pos: "(0 :: rat) < of_int iterations" using it by simp
  have "calculate_equity_python shuffle my_cards board iterations g
      = Inr (w' / of_int iterations, g')"
    unfolding calculate_equity_python_def Let_def r(1) bindE_def using it by simp
  moreover have "0 \<le> w' / of_int iterations" using r(2) pos by simp
  moreover have "w' / of_int iterations \<le> 1" using r(3) pos n by simp
  ultimately show ?thesis by blast
qed

text \<open>
  Claim C7 says that for every 3-card hand and every board of 0 to 6 cards the
  reduction returns the retention whose best-hand value with the board is maximal.
  On a board of two cards the pool of a retention has four cards, \<^const>\<open>eval7\<close> hands
  it to \<^const>\<open>eval5\<close>, and there the kicker of two pair is the maximum of an empty
  sequence: with A-K on the board and A-K-2 in hand the retention A-K raises
  \<^verbatim>\<open>ValueError\<close>, and so does the reduction, although the two other retentions
  evaluate to a pair.
\<close>

theorem reduction_raises_on_two_pair_with_two_card_board:
  "best_two_from_three [''As'', ''Kd'', ''2c''] [''Ad'', ''Kh''] = Inl ValueError
   \<and> eval7 [''As'', ''Kd'', ''Ad'', ''Kh''] = Inl ValueError
   \<and> eval7 [''Kd'', ''2c'', ''Ad'', ''Kh''] = Inr (PTup [PInt 1, PInt 13, PTup [PInt 14, PInt 2]])
   \<and> eval7 [''As'', ''2c'', ''Ad'', ''Kh''] = Inr (PTup [PInt 1, PInt 14, PTup [PInt 13, PInt 2]])"
  by code_simp

text \<open>
  On a board of three or more cards every pool has at least five cards, and the
  reduction returns the first retention that no other retention exceeds.
\<close>

lemma best_two_from_three_argmax:
  assumes c: "deck_cards [x, y, z]" and b: "deck_cards bd" and n: "3 \<le> length bd"
  shows "\<exists>keep v. best_two_from_three [x, y, z] bd = Inr (Some keep)
           \<and> keep \<in> {[y, z], [x, z], [x, y]}
           \<and> eval7 (keep @ bd) = Inr v
           \<and> (\<forall>k \<in> {[y, z], [x, z], [x, y]}.
                 \<exists>v'. eval7 (k @ bd) = Inr v' \<and> py_gt v' v = Inr False)"
proof -
  have d: "deck_cards [y, z]" "deck_cards [x, z]" "deck_cards [x, y]"
    using c by (simp_all add: deck_cards_def)
  have "\<exists>v. eval7 ([y, z] @ bd) = Inr v \<and> handrank v"
    using d b n by (intro eval7_total) (simp_all add: deck_cards_def)
  then obtain v0 where v0: "eval7 (y # z # bd) = Inr v0" "handrank v0" by auto
  have "\<exists>v. eval7 ([x, z] @ bd) = Inr v \<and> handrank v"
    using d b n by (intro eval7_total) (simp_all add: deck_cards_def)
  then obtain v1 where v1: "eval7 (x # z # bd) = Inr v1" "handrank v1" by auto
  have "\<exists>v. eval7 ([x, y] @ bd) = Inr v \<and> handrank v"
    using d b n by (intro eval7_total) (simp_all add: deck_cards_def)
  then obtain v2 where v2: "eval7 (x # y # bd) = Inr v2" "handrank v2" by auto
  have nn: "v0 \<noteq> PNone" "v1 \<noteq> PNone" "v2 \<noteq> PNone"
    using v0 v1 v2 by (simp_all add: handrank_not_None)
  have g: "py_gt a b = Inr (flat b < flat a)" if "a \<in> {v0, v1, v2}" "b \<in> {v0, v1, v2}" for a b
    using that v0 v1 v2 by (auto simp: py_gt_flat)
  define keep where "keep =
    (if flat v0 < flat v1 then (if flat v1 < flat v2 then [x, y] else [x, z])
     else (if flat v0 < flat v2 then [x, y] else [y, z]))"
  have r: "best_two_from_three [x, y, z] bd = Inr (Some keep)"
    by (simp add: best_two_from_three_def upt3 py_index_def bindE_def v0 v1 v2 nn g keep_def)
  show ?thesis
    unfolding r
    apply (rule exI [of _ keep])
    apply (simp add: keep_def v0 v1 v2 g)
    apply (auto simp: not_less)
    done
qed

lemma id_shuffle_permuting: "permuting (\<lambda>g xs. (xs, g))"
  by (simp add: permuting_def)

lemma two_pair_on_two_card_board:
  "best_two_from_three [''Ah'', ''Kh'', ''2c''] [''Ad'', ''Kd''] = Inl ValueError"
  by code_simp

text \<open>
  Claim C3 says that every call of the simulator with 2 or 3 own cards, a board of 0
  to 6 cards and at least one iteration returns the accumulated score divided by the
  iteration count. With the own cards A-K-2 on the two-card board A-K the first
  iteration reduces the own hand, the retention A-K makes two pair of four cards, and
  the call raises \<^verbatim>\<open>ValueError\<close>, whatever the shuffle deals.
\<close>

theorem equity_raises_on_two_card_board:
  assumes "1 \<le> iterations" and "permuting shuffle"
  shows "calculate_equity_python shuffle [''Ah'', ''Kh'', ''2c''] [''Ad'', ''Kd''] iterations g
           = Inl ValueError"
proof -
  let ?my = "[''Ah'', ''Kh'', ''2c'']" and ?bd = "[''Ad'', ''Kd'']"
  let ?deck = "filter (\<lambda>c. c \<notin> set (?my @ ?bd)) full_deck"
  define deck' where "deck' = fst (shuffle g ?deck)"
  have "mset deck' = mset ?deck"
    using assms(2) by (simp add: deck'_def permuting_def)
  then have "length deck' = length ?deck" by (rule mset_eq_length)
  moreover have "52 \<le> length ?deck + length (?my @ ?bd)"
    by (rule remaining_deck_length)
  ultimately have len: "3 \<le> length deck'" by simp
  have o3: "mapE (py_index deck') [0, 1, 2] = Inr [deck' ! 0, deck' ! 1, deck' ! 2]"
    using len by (auto simp: py_index_def bindE_def)
  have it: "sim_iteration shuffle ?my ?bd (?deck, g, w) = Inl ValueError" for w
    unfolding sim_iteration_def Let_def fst_conv snd_conv deck'_def [symmetric] o3
      bindE_def sum.case
    by (simp add: two_pair_on_two_card_board)
  from assms(1) obtain k where k: "nat iterations = Suc k"
    by (cases "nat iterations") auto
  have "sim_loop shuffle ?my ?bd (nat iterations) (?deck, g, 0) = Inl ValueError"
    unfolding k sim_loop.simps it bindE_def by simp
  then show ?thesis
    unfolding calculate_equity_python_def Let_def bindE_def by simp
qed

text \<open>The call with the shuffle that leaves the deck as it is, and 40 iterations.\<close>

theorem equity_raises_on_two_card_board_witness:
  "calculate_equity_python (\<lambda>g xs. (xs, g)) [''Ah'', ''Kh'', ''2c''] [''Ad'', ''Kd''] 40 ()
     = Inl ValueError"
proof -
  have "(1 :: int) \<le> 40" by simp
  from equity_raises_on_two_card_board [OF this id_shuffle_permuting] show ?thesis .
qed

section \<open>Properties of the equity cache\<close>

lemma it_bucket_pos: "1 \<le> it_bucket n"
  by (simp add: it_bucket_def)

lemma calculate_equity_hit:
  assumes "eq_cache self (cache_key_of my_cards board street iterations) = Some e"
  shows "calculate_equity shuffle my_cards board street iterations self = Inr (e, self)"
  using assms by (simp add: calculate_equity_def)

lemma calculate_equity_miss:
  assumes "eq_cache self (cache_key_of my_cards board street iterations) = None"
  shows "calculate_equity shuffle my_cards board street iterations self =
     bindE (calculate_equity_python shuffle my_cards board (it_bucket iterations) (rng self))
       (\<lambda>r. Inr (fst r, self\<lparr>rng := snd r,
          eq_cache := (eq_cache self)(cache_key_of my_cards board street iterations \<mapsto> fst r)\<rparr>))"
  using assms by (simp add: calculate_equity_def)

lemma calculate_equity_stores:
  assumes "calculate_equity shuffle my_cards board street iterations self = Inr (e, self')"
  shows "eq_cache self' (cache_key_of my_cards board street iterations) = Some e"
proof (cases "eq_cache self (cache_key_of my_cards board street iterations)")
  case None
  from assms show ?thesis
    unfolding calculate_equity_miss [OF None]
    by (auto simp: bindE_def split: sum.splits)
next
  case (Some c)
  from assms show ?thesis
    unfolding calculate_equity_hit [OF Some] using Some by simp
qed

lemma calculate_equity_preserves:
  assumes "calculate_equity shuffle my_cards board street iterations self = Inr (e, self')"
    and "eq_cache self k = Some v"
  shows "eq_cache self' k = Some v"
proof (cases "eq_cache self (cache_key_of my_cards board street iterations)")
  case None
  from assms(1) have "\<exists>x. eq_cache self' =
      (eq_cache self)(cache_key_of my_cards board street iterations \<mapsto> x)"
    unfolding calculate_equity_miss [OF None]
    by (auto simp: bindE_def split: sum.splits)
  with None assms(2) show ?thesis by auto
next
  case (Some c)
  from assms show ?thesis
    unfolding calculate_equity_hit [OF Some] by simp
qed

lemma run_queries_preserves:
  assumes "run_queries shuffle qs self = Inr self'" and "eq_cache self k = Some v"
  shows "eq_cache self' k = Some v"
  using assms
proof (induction qs arbitrary: self)
  case Nil
  then show ?case by simp
next
  case (Cons q qs)
  from Cons.prems(1) obtain e s1 where
    c: "calculate_equity shuffle (fst q) (fst (snd q)) (fst (snd (snd q)))
          (snd (snd (snd q))) self = Inr (e, s1)"
    and r: "run_queries shuffle qs s1 = Inr self'"
    by (auto simp: bindE_def split: sum.splits)
  from calculate_equity_preserves [OF c Cons.prems(2)] have "eq_cache s1 k = Some v" .
  from Cons.IH [OF r this] show ?case .
qed

lemma calculate_equity_total:
  assumes perm: "permuting shuffle"
    and my: "deck_cards my_cards" "length my_cards = 2 \<or> length my_cards = 3"
    and bd: "deck_cards board" "3 \<le> length board" "length board \<le> 7"
  shows "\<exists>e self'. calculate_equity shuffle my_cards board street iterations self = Inr (e, self')
     \<and> (eq_cache self (cache_key_of my_cards board street iterations) = None
           \<longrightarrow> 0 \<le> e \<and> e \<le> 1)"
proof (cases "eq_cache self (cache_key_of my_cards board street iterations)")
  case None
  from calculate_equity_python_total [OF perm my bd it_bucket_pos]
  obtain e g' where "calculate_equity_python shuffle my_cards board (it_bucket iterations)
      (rng self) = Inr (e, g')" "0 \<le> e" "e \<le> 1"
    by blast
  then show ?thesis
    unfolding calculate_equity_miss [OF None] by (simp add: bindE_def)
next
  case (Some c)
  then show ?thesis by (simp add: calculate_equity_hit [OF Some])
qed

text \<open>
  Claim C6. The requested iteration count is cut into one of the four buckets 40, 60,
  90 and 120, and the requests of 41 to 45 iterations share the bucket of a request
  of 40. On a cache miss that returns an estimate, the estimate is what the simulator
  returns for the bucket's count from the current generator state, and it is stored
  under the key. After any further sequence of queries, a query with the same key
  (own cards up to order, the same board, street and bucket) returns that same
  estimate and leaves the player, its generator state included, as it was: the
  simulator does not run again. (The cache is kept between the queries; clearing it
  at a new round is outside this function.)
\<close>

theorem cache_hit_after_miss:
  assumes miss: "eq_cache self (cache_key_of my_cards board street iterations) = None"
    and first: "calculate_equity shuffle my_cards board street iterations self = Inr (e, self1)"
    and between: "run_queries shuffle qs self1 = Inr self2"
    and key: "cache_key_of my_cards' board' street' iterations'
                = cache_key_of my_cards board street iterations"
  shows "(\<forall>i. 40 \<le> i \<and> i \<le> 45 \<longrightarrow> it_bucket i = it_bucket 40)
     \<and> it_bucket iterations \<in> {40, 60, 90, 120}
     \<and> (\<exists>g'. calculate_equity_python shuffle my_cards board (it_bucket iterations) (rng self)
                = Inr (e, g')
             \<and> self1 = self\<lparr>rng := g',
                  eq_cache := (eq_cache self)
                    (cache_key_of my_cards board street iterations \<mapsto> e)\<rparr>)
     \<and> calculate_equity shuffle my_cards' board' street' iterations' self2 = Inr (e, self2)"
proof -
  have a: "\<forall>i. 40 \<le> i \<and> i \<le> 45 \<longrightarrow> it_bucket i = it_bucket 40"
    by (simp add: it_bucket_def)
  have b: "it_bucket iterations \<in> {40, 60, 90, 120}"
    by (simp add: it_bucket_def)
  have c: "\<exists>g'. calculate_equity_python shuffle my_cards board (it_bucket iterations) (rng self)
                = Inr (e, g')
             \<and> self1 = self\<lparr>rng := g',
                  eq_cache := (eq_cache self)
                    (cache_key_of my_cards board street iterations \<mapsto> e)\<rparr>"
    using first unfolding calculate_equity_miss [OF miss]
    by (auto simp: bindE_def split: sum.splits)
  have "eq_cache self1 (cache_key_of my_cards board street iterations) = Some e"
    by (rule calculate_equity_stores [OF first])
  from run_queries_preserves [OF between this]
  have "eq_cache self2 (cache_key_of my_cards' board' street' iterations') = Some e"
    by (simp add: key)
  from calculate_equity_hit [OF this]
  have d: "calculate_equity shuffle my_cards' board' street' iterations' self2 = Inr (e, self2)" .
  show ?thesis using a b c d by blast
qed

text \<open>A miss from the empty cache, one other query in between, and the hit.\<close>

theorem cache_hit_after_miss_witness:
  "\<exists>e self1 self2.
     calculate_equity (\<lambda>g xs. (xs, g)) [''As'', ''Kd''] [''Ad'', ''Kh'', ''2d''] 3 40
       \<lparr>lockdown_mode = False, rng = (), eq_cache = Map.empty\<rparr> = Inr (e, self1)
   \<and> run_queries (\<lambda>g xs. (xs, g)) [([''Qs'', ''Qd''], [''Ad'', ''Kh'', ''2d'', ''7c''], 4, 90)]
       self1 = Inr self2
   \<and> calculate_equity (\<lambda>g xs. (xs, g)) [''Kd'', ''As''] [''Ad'', ''Kh'', ''2d''] 3 45 self2
       = Inr (e, self2)"
proof -
  let ?sh = "\<lambda>(g :: unit) (xs :: card list). (xs, g)"
  let ?p0 = "\<lparr>lockdown_mode = False, rng = (), eq_cache = Map.empty\<rparr>"
  have d: "deck_cards [''As'', ''Kd'']" "deck_cards [''Ad'', ''Kh'', ''2d'']"
    "deck_cards [''Qs'', ''Qd'']" "deck_cards [''Ad'', ''Kh'', ''2d'', ''7c'']"
    by code_simp+
  have miss: "eq_cache ?p0 (cache_key_of [''As'', ''Kd''] [''Ad'', ''Kh'', ''2d''] 3 40) = None"
    by simp
  from calculate_equity_total [OF id_shuffle_permuting d(1) _ d(2), where self = ?p0
      and street = 3 and iterations = 40]
  obtain e self1 where
    first: "calculate_equity ?sh [''As'', ''Kd''] [''Ad'', ''Kh'', ''2d''] 3 40 ?p0 = Inr (e, self1)"
    by auto
  from calculate_equity_total [OF id_shuffle_permuting d(3) _ d(4), where self = self1
      and street = 4 and iterations = 90]
  obtain e2 self2 where
    "calculate_equity ?sh [''Qs'', ''Qd''] [''Ad'', ''Kh'', ''2d'', ''7c''] 4 90 self1
       = Inr (e2, self2)"
    by auto
  then have between: "run_queries ?sh [([''Qs'', ''Qd''], [''Ad'', ''Kh'', ''2d'', ''7c''], 4, 90)]
       self1 = Inr self2"
    by (simp add: bindE_def)
  have key: "cache_key_of [''Kd'', ''As''] [''Ad'', ''Kh'', ''2d''] 3 45
      = cache_key_of [''As'', ''Kd''] [''Ad'', ''Kh'', ''2d''] 3 40"
    by (simp add: cache_key_of_def it_bucket_def)
  from cache_hit_after_miss [OF miss first between key]
  have "calculate_equity ?sh [''Kd'', ''As''] [''Ad'', ''Kh'', ''2d''] 3 45 self2 = Inr (e, self2)"
    by blast
  with first between show ?thesis by blast
qed

text \<open>
  Claim C4 says that two queries that differ only in the order of the own cards or in
  the order of the board cards have the same cache key. The key holds the board as it
  is listed (\<^verbatim>\<open>tuple(board)\<close>); only the own cards are sorted. Two listings of one
  board give two keys.
\<close>

theorem board_order_changes_key:
  "cache_key_of [''Ah'', ''Kd''] [''2c'', ''3d'', ''4h''] 1 60
     \<noteq> cache_key_of [''Ah'', ''Kd''] [''3d'', ''2c'', ''4h''] 1 60"
  by (simp add: cache_key_of_def)

text \<open>
  Claim C4 as amended. Two queries that list the same own cards in any order, with
  the same board sequence, the same street and the same iteration bucket, have the
  same cache key, and once the first has returned an estimate the second returns that
  estimate from the cache and leaves the player as it was.
\<close>

theorem own_cards_order_same_key:
  assumes "mset my_cards' = mset my_cards"
    and "it_bucket iterations' = it_bucket iterations"
    and "calculate_equity shuffle my_cards board street iterations self = Inr (e, self1)"
  shows "cache_key_of my_cards' board street iterations'
           = cache_key_of my_cards board street iterations
     \<and> calculate_equity shuffle my_cards' board street iterations' self1 = Inr (e, self1)"
proof -
  have "sort my_cards' = sort my_cards"
    using assms(1) by (intro properties_for_sort) simp_all
  then have key: "cache_key_of my_cards' board street iterations'
           = cache_key_of my_cards board street iterations"
    by (simp add: cache_key_of_def assms(2))
  have "eq_cache self1 (cache_key_of my_cards board street iterations) = Some e"
    by (rule calculate_equity_stores [OF assms(3)])
  then have "eq_cache self1 (cache_key_of my_cards' board street iterations') = Some e"
    by (simp add: key)
  from calculate_equity_hit [OF this] key show ?thesis by simp
qed

text \<open>Three own cards listed in two orders, with requests of 60 and 50 iterations.\<close>

theorem own_cards_order_same_key_witness:
  "\<exists>e self1.
     calculate_equity (\<lambda>g xs. (xs, g)) [''Ah'', ''Kd'', ''7s''] [''2c'', ''3d'', ''4h''] 1 60
       \<lparr>lockdown_mode = False, rng = (), eq_cache = Map.empty\<rparr> = Inr (e, self1)
   \<and> cache_key_of [''7s'', ''Ah'', ''Kd''] [''2c'', ''3d'', ''4h''] 1 50
       = cache_key_of [''Ah'', ''Kd'', ''7s''] [''2c'', ''3d'', ''4h''] 1 60
   \<and> calculate_equity (\<lambda>g xs. (xs, g)) [''7s'', ''Ah'', ''Kd''] [''2c'', ''3d'', ''4h''] 1 50
       self1 = Inr (e, self1)"
proof -
  let ?sh = "\<lambda>(g :: unit) (xs :: card list). (xs, g)"
  let ?p0 = "\<lparr>lockdown_mode = False, rng = (), eq_cache = Map.empty\<rparr>"
  have d: "deck_cards [''Ah'', ''Kd'', ''7s'']" "deck_cards [''2c'', ''3d'', ''4h'']"
    by code_simp+
  from calculate_equity_total [OF id_shuffle_permuting d(1) _ d(2), where self = ?p0
      and street = 1 and iterations = 60]
  obtain e self1 where
    first: "calculate_equity ?sh [''Ah'', ''Kd'', ''7s''] [''2c'', ''3d'', ''4h''] 1 60 ?p0
       = Inr (e, self1)"
    by auto
  have m: "mset [''7s'', ''Ah'', ''Kd''] = mset [''Ah'', ''Kd'', ''7s'']" by simp
  have b: "it_bucket 50 = it_bucket 60" by (simp add: it_bucket_def)
  from own_cards_order_same_key [OF m b first] first show ?thesis by blast
qed

text \<open>
  Claim C10. Two queries that miss the cache, agree on the own cards, the board and
  the iteration bucket, start from the same generator state and differ in the street
  compute the same result: the same estimate and the same next generator state, or
  the same error. That result is the simulator's, which is never given the street.
\<close>

theorem stage_only_in_key:
  assumes "eq_cache self1 (cache_key_of my_cards board street1 iterations1) = None"
    and "eq_cache self2 (cache_key_of my_cards board street2 iterations2) = None"
    and "rng self1 = rng self2"
    and "it_bucket iterations1 = it_bucket iterations2"
  shows "map_sum id (\<lambda>r. (fst r, rng (snd r)))
           (calculate_equity shuffle my_cards board street1 iterations1 self1)
       = map_sum id (\<lambda>r. (fst r, rng (snd r)))
           (calculate_equity shuffle my_cards board street2 iterations2 self2)
     \<and> map_sum id (\<lambda>r. (fst r, rng (snd r)))
           (calculate_equity shuffle my_cards board street1 iterations1 self1)
       = calculate_equity_python shuffle my_cards board (it_bucket iterations1) (rng self1)"
  unfolding calculate_equity_miss [OF assms(1)] calculate_equity_miss [OF assms(2)]
  using assms(3,4)
  by (cases "calculate_equity_python shuffle my_cards board (it_bucket iterations2) (rng self2)")
    (simp_all add: bindE_def)

text \<open>Streets 1 and 4 on two players whose caches both miss.\<close>

theorem stage_only_in_key_witness:
  "map_sum id (\<lambda>r. (fst r, rng (snd r)))
     (calculate_equity (\<lambda>g xs. (rev xs, Suc g)) [''Ah'', ''Kd''] [''2c'', ''3d'', ''4h''] 1 60
        \<lparr>lockdown_mode = False, rng = 0, eq_cache = Map.empty\<rparr>)
   = map_sum id (\<lambda>r. (fst r, rng (snd r)))
     (calculate_equity (\<lambda>g xs. (rev xs, Suc g)) [''Ah'', ''Kd''] [''2c'', ''3d'', ''4h''] 4 70
        \<lparr>lockdown_mode = True, rng = 0,
          eq_cache = [cache_key_of [''Ah'', ''Kd''] [''2c'', ''3d'', ''4h''] 1 60 \<mapsto> 1 / 4]\<rparr>)"
proof -
  let ?p1 = "\<lparr>lockdown_mode = False, rng = 0 :: nat, eq_cache = Map.empty\<rparr>"
  let ?p2 = "\<lparr>lockdown_mode = True, rng = 0 :: nat,
          eq_cache = [cache_key_of [''Ah'', ''Kd''] [''2c'', ''3d'', ''4h''] 1 60 \<mapsto> 1 / 4]\<rparr>"
  have m1: "eq_cache ?p1 (cache_key_of [''Ah'', ''Kd''] [''2c'', ''3d'', ''4h''] 1 60) = None"
    by simp
  have m2: "eq_cache ?p2 (cache_key_of [''Ah'', ''Kd''] [''2c'', ''3d'', ''4h''] 4 70) = None"
    by (simp add: cache_key_of_def)
  have r: "rng ?p1 = rng ?p2" by simp
  have b: "it_bucket 60 = it_bucket 70" by (simp add: it_bucket_def)
  from stage_only_in_key [OF m1 m2 r b] show ?thesis by blast
qed

text \<open>
  Claim C9 says that a call whose own cards and board share a card raises an error.
  There is no check for duplicates anywhere: the used cards are collected in a set and
  removed from the deck, and the simulation runs. The call with the ace of spades both
  in hand and on the board returns.
\<close>

theorem duplicate_card_is_not_rejected:
  "\<not> distinct ([''As'', ''Kd''] @ [''As'', ''Kh'', ''2d''])
   \<and> \<not> isl (calculate_equity (\<lambda>g xs. (xs, g)) [''As'', ''Kd''] [''As'', ''Kh'', ''2d''] 1 40
        \<lparr>lockdown_mode = False, rng = (), eq_cache = Map.empty\<rparr>)"
proof -
  have d: "deck_cards [''As'', ''Kd'']" "deck_cards [''As'', ''Kh'', ''2d'']"
    by code_simp+
  from calculate_equity_total [OF id_shuffle_permuting d(1) _ d(2), where street = 1
      and iterations = 40 and self = "\<lparr>lockdown_mode = False, rng = (), eq_cache = Map.empty\<rparr>"]
  show ?thesis by auto
qed

text \<open>
  Claim C9 as amended. A call whose own cards (2 or 3 tokens of the deck) and board
  (3 to 6 tokens of the deck) together contain a duplicate card is not rejected: with
  a shuffle that permutes the deck it returns an estimate, and an estimate computed on
  a cache miss lies between 0 and 1.
\<close>

theorem duplicates_give_an_estimate:
  assumes "permuting shuffle"
    and "deck_cards my_cards" "length my_cards = 2 \<or> length my_cards = 3"
    and "deck_cards board" "3 \<le> length board" "length board \<le> 6"
    and "\<not> distinct (my_cards @ board)"
  shows "\<exists>e self'. calculate_equity shuffle my_cards board street iterations self = Inr (e, self')
     \<and> (eq_cache self (cache_key_of my_cards board street iterations) = None
           \<longrightarrow> 0 \<le> e \<and> e \<le> 1)"
  using assms by (intro calculate_equity_total) simp_all

text \<open>A call with the seven of clubs in hand and on the board, and a board card listed twice.\<close>

theorem duplicates_give_an_estimate_witness:
  "\<not> distinct ([''As'', ''Kd'', ''7c''] @ [''7c'', ''Kh'', ''2d'', ''2d''])
   \<and> (\<exists>e self'. calculate_equity (\<lambda>g xs. (rev xs, g)) [''As'', ''Kd'', ''7c'']
          [''7c'', ''Kh'', ''2d'', ''2d''] 2 110
          \<lparr>lockdown_mode = False, rng = (), eq_cache = Map.empty\<rparr> = Inr (e, self')
        \<and> 0 \<le> e \<and> e \<le> 1)"
proof -
  have p: "permuting (\<lambda>(g :: unit) (xs :: card list). (rev xs, g))"
    by (simp add: permuting_def)
  have d: "deck_cards [''As'', ''Kd'', ''7c'']" "deck_cards [''7c'', ''Kh'', ''2d'', ''2d'']"
    by code_simp+
  have l: "length [''As'', ''Kd'', ''7c''] = 2 \<or> length [''As'', ''Kd'', ''7c''] = 3"
    "3 \<le> length [''7c'', ''Kh'', ''2d'', ''2d'']" "length [''7c'', ''Kh'', ''2d'', ''2d''] \<le> 6"
    by simp_all
  have n: "\<not> distinct ([''As'', ''Kd'', ''7c''] @ [''7c'', ''Kh'', ''2d'', ''2d''])"
    by simp
  from duplicates_give_an_estimate [OF p d(1) l(1) d(2) l(2,3) n, where street = 2
      and iterations = 110 and self = "\<lparr>lockdown_mode = False, rng = (), eq_cache = Map.empty\<rparr>"]
  show ?thesis using n by auto
qed

section \<open>Properties of the discard selection\<close>

text \<open>
  Claim C5 says that for every 3 private cards and every board of 0 to 6 cards the
  selector returns an index among 0, 1, 2 whose equity is the highest. On a board of
  one card the board after the discard has two cards, so the simulated opponent's
  retentions are evaluated on four cards: when the shuffle deals the opponent a pair
  and the board pairs too, \<^const>\<open>eval5\<close> raises \<^verbatim>\<open>ValueError\<close> and no index is
  returned. Here the deck keeps its order, so the opponent holds three deuces against
  the board K-K.
\<close>

theorem discard_raises_on_one_card_board:
  "get_best_discard (\<lambda>g xs. (xs, g)) [''Kh'', ''Kd'', ''Qs''] [''Kc'']
     \<lparr>lockdown_mode = False, rng = (), eq_cache = Map.empty\<rparr> = Inl ValueError"
proof -
  have "map_sum id fst (get_best_discard (\<lambda>g xs. (xs, g)) [''Kh'', ''Kd'', ''Qs''] [''Kc'']
     \<lparr>lockdown_mode = False, rng = (), eq_cache = Map.empty\<rparr>) = Inl ValueError"
    by code_simp
  then show ?thesis
    by (cases "get_best_discard (\<lambda>g xs. (xs, g)) [''Kh'', ''Kd'', ''Qs''] [''Kc'']
     \<lparr>lockdown_mode = False, rng = (), eq_cache = Map.empty\<rparr>") simp_all
qed

text \<open>
  On a board of two to six cards, with a cache that holds no negative estimate (as
  every cache filled by \<^const>\<open>calculate_equity\<close> does), the selector runs its three
  queries in turn and returns the lowest index whose estimate no other estimate
  exceeds.
\<close>

lemma calculate_equity_nonneg:
  assumes perm: "permuting shuffle"
    and my: "deck_cards my_cards" "length my_cards = 2 \<or> length my_cards = 3"
    and bd: "deck_cards board" "3 \<le> length board" "length board \<le> 7"
    and ok: "\<forall>k v. eq_cache self k = Some v \<longrightarrow> 0 \<le> v"
  shows "\<exists>e self'. calculate_equity shuffle my_cards board street iterations self = Inr (e, self')
     \<and> 0 \<le> e \<and> (\<forall>k v. eq_cache self' k = Some v \<longrightarrow> 0 \<le> v)"
proof (cases "eq_cache self (cache_key_of my_cards board street iterations)")
  case None
  from calculate_equity_python_total [OF perm my bd it_bucket_pos]
  obtain e g' where "calculate_equity_python shuffle my_cards board (it_bucket iterations)
      (rng self) = Inr (e, g')" "0 \<le> e" "e \<le> 1"
    by blast
  then show ?thesis
    unfolding calculate_equity_miss [OF None] using ok by (simp add: bindE_def)
next
  case (Some c)
  from ok Some have "0 \<le> c" by blast
  then show ?thesis using ok by (simp add: calculate_equity_hit [OF Some])
qed

lemma discard_selects_argmax:
  assumes perm: "permuting shuffle"
    and my: "deck_cards [c0, c1, c2]"
    and bd: "deck_cards board" "2 \<le> length board" "length board \<le> 6"
    and ok: "\<forall>k v. eq_cache self k = Some v \<longrightarrow> 0 \<le> v"
  shows "\<exists>idx self' e0 e1 e2 s1 s2.
       get_best_discard shuffle [c0, c1, c2] board self = Inr (idx, self')
     \<and> calculate_equity shuffle [c1, c2] (board @ [c0]) 1 60 self = Inr (e0, s1)
     \<and> calculate_equity shuffle [c0, c2] (board @ [c1]) 1 60 s1 = Inr (e1, s2)
     \<and> calculate_equity shuffle [c0, c1] (board @ [c2]) 1 60 s2 = Inr (e2, self')
     \<and> idx < 3
     \<and> (\<forall>j < 3. [e0, e1, e2] ! j \<le> [e0, e1, e2] ! idx)
     \<and> (\<forall>j < idx. [e0, e1, e2] ! j < [e0, e1, e2] ! idx)"
proof -
  have d: "deck_cards [c1, c2]" "deck_cards [c0, c2]" "deck_cards [c0, c1]"
    "deck_cards (board @ [c0])" "deck_cards (board @ [c1])" "deck_cards (board @ [c2])"
    using my bd(1) by (simp_all add: deck_cards_def)
  have l: "3 \<le> length (board @ [c])" "length (board @ [c]) \<le> 7" for c
    using bd(2,3) by simp_all
  from calculate_equity_nonneg [OF perm d(1) _ d(4) l ok, where street = 1 and iterations = 60]
  obtain e0 s1 where
    q0: "calculate_equity shuffle [c1, c2] (board @ [c0]) 1 60 self = Inr (e0, s1)"
    and p0: "0 \<le> e0" and ok1: "\<forall>k v. eq_cache s1 k = Some v \<longrightarrow> 0 \<le> v"
    by auto
  from calculate_equity_nonneg [OF perm d(2) _ d(5) l ok1, where street = 1 and iterations = 60]
  obtain e1 s2 where
    q1: "calculate_equity shuffle [c0, c2] (board @ [c1]) 1 60 s1 = Inr (e1, s2)"
    and ok2: "\<forall>k v. eq_cache s2 k = Some v \<longrightarrow> 0 \<le> v"
    by auto
  from calculate_equity_nonneg [OF perm d(3) _ d(6) l ok2, where street = 1 and iterations = 60]
  obtain e2 s3 where
    q2: "calculate_equity shuffle [c0, c1] (board @ [c2]) 1 60 s2 = Inr (e2, s3)"
    by auto
  define idx :: nat where "idx =
    (if e0 < e1 then (if e1 < e2 then 2 else 1) else (if e0 < e2 then 2 else 0))"
  have r: "get_best_discard shuffle [c0, c1, c2] board self = Inr (idx, s3)"
    using bd(2) p0
    by (simp add: get_best_discard_def upt3 py_index_def bindE_def q0 q1 q2 idx_def)
  have i3: "idx < 3" by (simp add: idx_def)
  have mx: "\<forall>j < 3. [e0, e1, e2] ! j \<le> [e0, e1, e2] ! idx"
    by (auto simp: idx_def less_Suc_eq numeral_3_eq_3)
  have fst: "\<forall>j < idx. [e0, e1, e2] ! j < [e0, e1, e2] ! idx"
    by (auto simp: idx_def less_Suc_eq numeral_2_eq_2)
  show ?thesis
    using r q0 q1 q2 i3 mx fst by blast
qed

end
